theory Spec2Isabelle
  imports Main
begin

unbundle bit_operations_syntax

section \<open>The extended-XYZ dump style\<close>

text \<open>
  A shallow embedding of \<^verbatim>\<open>src/dump_extxyz.cpp\<close> (class \<^verbatim>\<open>DumpEXTXYZ\<close>, a dump style of
  LAMMPS). Member functions become functions on a record of the object's fields; a
  function that can fail returns its outcome together with the object as it is at
  that moment, so that what an aborted call leaves behind can be stated.

  What the C++ relies on but does not contain is taken as follows.
  \<^item> \<^verbatim>\<open>double\<close> is a type variable \<open>'d\<close>. Its subtraction, the conversions between
    integers and doubles, and the text that \<^verbatim>\<open>printf\<close> and \<^verbatim>\<open>fmt\<close> produce for a double
    are fields of a record \<open>'d platform\<close> that every function takes as parameter.
    Theorems hold for every platform.
  \<^item> Arrays whose bounds the caller owns (\<^verbatim>\<open>mybuf\<close>, \<^verbatim>\<open>buf\<close>, \<^verbatim>\<open>ids\<close>, the per-atom arrays)
    are functions from the index. The arrays this class allocates itself
    (\<^verbatim>\<open>typenames\<close>, \<^verbatim>\<open>sbuf\<close>) carry what the class knows about their extent, and a read
    or write outside it is an outcome of its own.
  \<^item> \<^verbatim>\<open>int\<close> values are integers; the one sum the code forms in 32 bits next to the
    size ceiling, \<^verbatim>\<open>offset + ONELINE\<close>, is checked against the range of \<^verbatim>\<open>int\<close>.
\<close>

subsection \<open>Constants\<close>

definition ONELINE :: int where
  "ONELINE = 128"

definition DELTA :: int where
  "DELTA = 1048576"

text \<open>
  Modelled from the spec: \<^verbatim>\<open>MAXSMALLINT\<close> is a macro of the LAMMPS header
  \<^verbatim>\<open>lmptype.h\<close>, which is not among the sources; the spec calls it the maximum
  representable signed 32-bit size.
\<close>

definition MAXSMALLINT :: int where
  "MAXSMALLINT = 2147483647"

definition newline :: char where
  "newline = CHR 0x0A"

definition NUL :: char where
  "NUL = CHR 0x00"

definition dquote :: char where
  "dquote = CHR 0x22"

subsection \<open>Outcomes\<close>

text \<open>
  \<open>ErrorAll\<close> is a call of \<^verbatim>\<open>error->all\<close>, which ends the run with the message. The
  other constructors name behaviour that C++ leaves undefined or that throws from a
  library: a write past the end of \<^verbatim>\<open>sbuf\<close>, a label read through a null table or an
  unassigned slot, a null format, a call through an unset member pointer, a signed
  overflow, a read of \<^verbatim>\<open>arg[0]\<close> in an empty argument list, a negative byte count
  handed to \<^verbatim>\<open>fwrite\<close>, and a \<^verbatim>\<open>fmt::format_error\<close>.
\<close>

datatype error =
    ErrorAll string
  | BufferOverrun
  | BadTypeIndex
  | NullFormat
  | UnsetChoice
  | SignedOverflow
  | BadArgRead
  | BadCount
  | FormatError

subsection \<open>The platform\<close>

record 'd platform =
  vsprintf :: "string \<Rightarrow> string \<Rightarrow> 'd \<Rightarrow> 'd \<Rightarrow> 'd \<Rightarrow> string"
  cast_int :: "'d \<Rightarrow> int"
  tag_to_double :: "int \<Rightarrow> 'd"
  int_to_double :: "int \<Rightarrow> 'd"
  dsub :: "'d \<Rightarrow> 'd \<Rightarrow> 'd"
  fmt_double :: "'d \<Rightarrow> string"

text \<open>
  \<open>vsprintf P f l a b c\<close> is the character sequence that the \<^verbatim>\<open>printf\<close> family
  produces for the template \<open>f\<close> with one string and three double arguments:
  \<^verbatim>\<open>sprintf\<close> stores it, followed by a NUL, and returns its length; \<^verbatim>\<open>fprintf\<close> sends
  it to the stream. \<open>cast_int\<close> is \<^verbatim>\<open>static_cast<int>\<close> on a double, \<open>tag_to_double\<close>
  and \<open>int_to_double\<close> are the implicit conversions of a \<^verbatim>\<open>tagint\<close> and an \<^verbatim>\<open>int\<close>
  stored into a double, \<open>dsub\<close> is the subtraction of doubles and \<open>fmt_double\<close> is
  what \<^verbatim>\<open>fmt::format("{}", d)\<close> gives for a double.
\<close>

subsection \<open>Decimal text of integers\<close>

definition digit_char :: "nat \<Rightarrow> char" where
  "digit_char d = ''0123456789'' ! d"

function dec_nat :: "nat \<Rightarrow> string" where
  "dec_nat k = (if k < 10 then [digit_char k] else dec_nat (k div 10) @ [digit_char (k mod 10)])"
  by pat_completeness auto
termination
  by (relation "measure id") auto

declare dec_nat.simps [simp del]

text \<open>\<^verbatim>\<open>sprintf(s, "%d", i)\<close> and \<^verbatim>\<open>fmt::format("{}", n)\<close> on an integer.\<close>

definition dec_int :: "int \<Rightarrow> string" where
  "dec_int i = (if i < 0 then CHR ''-'' # dec_nat (nat (- i)) else dec_nat (nat i))"

text \<open>What a string of decimal digits denotes, read from the left.\<close>

definition digit_val :: "char \<Rightarrow> nat" where
  "digit_val c = of_char c - 48"

definition is_digit :: "char \<Rightarrow> bool" where
  "is_digit c = (48 \<le> (of_char c :: nat) \<and> (of_char c :: nat) \<le> 57)"

definition dec_value :: "string \<Rightarrow> nat" where
  "dec_value cs = foldl (\<lambda>acc c. 10 * acc + digit_val c) 0 cs"

subsection \<open>The object\<close>

datatype header_fn = Header_binary | Header_binary_triclinic

datatype pack_fn = Pack | Pack_triclinic

datatype write_fn = Write_string | Write_lines

text \<open>
  The fields of \<^verbatim>\<open>DumpEXTXYZ\<close> and those of its base class \<^verbatim>\<open>Dump\<close> that the code
  reads or writes. \<open>typenames\<close> is \<open>None\<close> for the null pointer; a table maps the
  slots that have been assigned. \<open>sbuf\<close> holds one byte per index and \<open>maxsbuf\<close> is
  its allocated size. \<open>fp\<close> is the output stream, as the bytes sent to it so far.
  \<open>boxxy\<close>, \<open>boxxz\<close> and \<open>boxyz\<close> are the tilt factors the base class stores for a
  triclinic box.
\<close>

record 'd dump =
  ntypes :: int
  typenames :: "(int \<rightharpoonup> string) option"
  format :: "string option"
  format_default :: string
  format_line_user :: "string option"
  size_one :: int
  buffer_allow :: int
  buffer_flag :: int
  sort_flag :: int
  sortcol :: int
  multifile :: int
  singlefile_opened :: int
  me :: int
  groupbit :: int
  boxxlo :: 'd
  boxxhi :: 'd
  boxylo :: 'd
  boxyhi :: 'd
  boxzlo :: 'd
  boxzhi :: 'd
  boxxy :: 'd
  boxxz :: 'd
  boxyz :: 'd
  buf :: "nat \<Rightarrow> 'd"
  maxsbuf :: int
  sbuf :: "nat \<Rightarrow> char"
  fp :: string
  header_choice :: "header_fn option"
  pack_choice :: "pack_fn option"
  write_choice :: "write_fn option"

text \<open>The per-atom arrays of \<^verbatim>\<open>atom\<close>, and the flag of \<^verbatim>\<open>domain\<close>.\<close>

record 'd atom =
  atom_tag :: "nat \<Rightarrow> int"
  atom_type :: "nat \<Rightarrow> int"
  atom_mask :: "nat \<Rightarrow> int"
  atom_x :: "nat \<Rightarrow> nat \<Rightarrow> 'd"
  atom_nlocal :: int

record domain =
  triclinic :: int

subsection \<open>\<^verbatim>\<open>init_style\<close>\<close>

text \<open>The loop of lines 86 to 89: slot \<open>itype\<close> receives the text of \<^verbatim>\<open>"%d"\<close>.\<close>

function default_typenames :: "int \<Rightarrow> int \<Rightarrow> (int \<rightharpoonup> string) \<Rightarrow> (int \<rightharpoonup> string)" where
  "default_typenames itype nt tn =
     (if itype \<le> nt then default_typenames (itype + 1) nt (tn(itype \<mapsto> dec_int itype)) else tn)"
  by pat_completeness auto
termination
  by (relation "measure (\<lambda>(itype, nt, tn). nat (nt + 1 - itype))") auto

declare default_typenames.simps [simp del]

text \<open>
  \<^verbatim>\<open>Dump::openfile\<close> belongs to the base class; of its effects only the flag that the
  single file has been opened is kept.
\<close>

definition openfile :: "'d dump \<Rightarrow> 'd dump" where
  "openfile s = s\<lparr>singlefile_opened := 1\<rparr>"

definition init_style :: "domain \<Rightarrow> 'd dump \<Rightarrow> 'd dump" where
  "init_style dmn s =
     (let s1 = (case format_line_user s of
                  Some u \<Rightarrow> s\<lparr>format := Some (u @ [newline])\<rparr>
                | None \<Rightarrow> s\<lparr>format := Some (format_default s @ [newline])\<rparr>);
          s2 = (if typenames s1 = None
                then s1\<lparr>typenames := Some (default_typenames 1 (ntypes s1) Map.empty)\<rparr>
                else s1);
          s3 = (if buffer_flag s2 = 1 then s2\<lparr>write_choice := Some Write_string\<rparr>
                else s2\<lparr>write_choice := Some Write_lines\<rparr>);
          s4 = (if triclinic dmn = 0
                then s3\<lparr>header_choice := Some Header_binary, pack_choice := Some Pack\<rparr>
                else if triclinic dmn = 1
                then s3\<lparr>header_choice := Some Header_binary_triclinic,
                        pack_choice := Some Pack_triclinic\<rparr>
                else s3)
      in if multifile s4 = 0 then openfile s4 else s4)"

subsection \<open>\<^verbatim>\<open>modify_param\<close>\<close>

text \<open>The loop of lines 127 to 129: slot \<open>itype\<close> receives a copy of \<^verbatim>\<open>arg[itype]\<close>.\<close>

function copy_typenames :: "string list \<Rightarrow> int \<Rightarrow> int \<Rightarrow> (int \<rightharpoonup> string) \<Rightarrow> (int \<rightharpoonup> string)" where
  "copy_typenames arg itype nt tn =
     (if itype \<le> nt then copy_typenames arg (itype + 1) nt (tn(itype \<mapsto> arg ! nat itype)) else tn)"
  by pat_completeness auto
termination
  by (relation "measure (\<lambda>(arg, itype, nt, tn). nat (nt + 1 - itype))") auto

declare copy_typenames.simps [simp del]

text \<open>
  \<^verbatim>\<open>narg\<close> is the number of entries of \<^verbatim>\<open>arg\<close>, so the model takes the list alone. The
  old table is freed before the new one is allocated: the new table starts with no
  slot assigned.
\<close>

definition modify_param :: "string list \<Rightarrow> 'd dump \<Rightarrow> (error + int) \<times> 'd dump" where
  "modify_param arg s =
     (let narg = int (length arg) in
      case arg of
        [] \<Rightarrow> (Inl BadArgRead, s)
      | a0 # _ \<Rightarrow>
          if a0 = ''element'' then
            if narg < ntypes s + 1
            then (Inl (ErrorAll ''Dump modify element names do not match atom types''), s)
            else
              let s1 = (if typenames s \<noteq> None then s\<lparr>typenames := None\<rparr> else s);
                  s2 = s1\<lparr>typenames := Some (copy_typenames arg 1 (ntypes s1) Map.empty)\<rparr>
              in (Inr (ntypes s2 + 1), s2)
          else (Inr 0, s))"

subsection \<open>The frame header\<close>

text \<open>
  \<^verbatim>\<open>fmt::print(fp, header)\<close> takes \<^verbatim>\<open>header\<close> as its format string, with no argument:
  a doubled brace prints one brace, and any other brace throws.
\<close>

fun fmt_plain :: "string \<Rightarrow> error + string" where
  "fmt_plain [] = Inr []"
| "fmt_plain [c] = (if c = CHR ''{'' \<or> c = CHR ''}'' then Inl FormatError else Inr [c])"
| "fmt_plain (c # d # cs) =
     (if c = CHR ''{'' \<or> c = CHR ''}'' then
        (if d = c then (case fmt_plain cs of Inl e \<Rightarrow> Inl e | Inr r \<Rightarrow> Inr (c # r))
         else Inl FormatError)
      else (case fmt_plain (d # cs) of Inl e \<Rightarrow> Inl e | Inr r \<Rightarrow> Inr (c # r)))"

definition fmt_print :: "string \<Rightarrow> 'd dump \<Rightarrow> (error + unit) \<times> 'd dump" where
  "fmt_print header s =
     (case fmt_plain header of
        Inl e \<Rightarrow> (Inl e, s)
      | Inr out \<Rightarrow> (Inr (), s\<lparr>fp := fp s @ out\<rparr>))"

definition lattice_text :: "'d platform \<Rightarrow> 'd \<Rightarrow> 'd \<Rightarrow> 'd \<Rightarrow> string" where
  "lattice_text P ex ey ez =
     ''Lattice='' @ [dquote] @ fmt_double P ex @ '' 0.0 0.0 0.0 '' @ fmt_double P ey
       @ '' 0.0 0.0 0.0 '' @ fmt_double P ez @ [dquote] @ '' ''"

definition header_binary :: "'d platform \<Rightarrow> int \<Rightarrow> 'd dump \<Rightarrow> (error + unit) \<times> 'd dump" where
  "header_binary P n s =
     (let header = dec_int n;
          header = header @ [newline]
      in case fmt_print header s of
           (Inl e, s1) \<Rightarrow> (Inl e, s1)
         | (Inr _, s1) \<Rightarrow>
             let header = lattice_text P (dsub P (boxxhi s1) (boxxlo s1))
                            (dsub P (boxyhi s1) (boxylo s1)) (dsub P (boxzhi s1) (boxzlo s1));
                 header = header @ [newline]
             in fmt_print header s1)"

definition header_binary_triclinic :: "'d platform \<Rightarrow> int \<Rightarrow> 'd dump \<Rightarrow> (error + unit) \<times> 'd dump" where
  "header_binary_triclinic P n s =
     (let header = dec_int n;
          header = header @ [newline]
      in case fmt_print header s of
           (Inl e, s1) \<Rightarrow> (Inl e, s1)
         | (Inr _, s1) \<Rightarrow>
             let header = lattice_text P (dsub P (boxxhi s1) (boxxlo s1))
                            (dsub P (boxyhi s1) (boxylo s1)) (dsub P (boxzhi s1) (boxzlo s1));
                 header = header @ [newline]
             in fmt_print header s1)"

definition write_header :: "'d platform \<Rightarrow> int \<Rightarrow> 'd dump \<Rightarrow> (error + unit) \<times> 'd dump" where
  "write_header P n s =
     (if me s = 0 then
        (case header_choice s of
           None \<Rightarrow> (Inl UnsetChoice, s)
         | Some Header_binary \<Rightarrow> header_binary P n s
         | Some Header_binary_triclinic \<Rightarrow> header_binary_triclinic P n s)
      else (Inr (), s))"

subsection \<open>The constructor\<close>

text \<open>
  The base-class constructor has run before the body; \<open>binary\<close> and \<open>multiproc\<close> are
  the flags it derived from the file name and \<open>atom_ntypes\<close> is \<^verbatim>\<open>atom->ntypes\<close>.
\<close>

definition DumpEXTXYZ :: "int \<Rightarrow> int \<Rightarrow> int \<Rightarrow> int \<Rightarrow> 'd dump \<Rightarrow> error + 'd dump" where
  "DumpEXTXYZ narg binary multiproc atom_ntypes s =
     (if narg \<noteq> 5 then Inl (ErrorAll ''Illegal dump extxyz command'')
      else if binary \<noteq> 0 \<or> multiproc \<noteq> 0 then Inl (ErrorAll ''Invalid dump extxyz filename'')
      else Inr (s\<lparr>size_one := 5, buffer_allow := 1, buffer_flag := 1, sort_flag := 1,
                  sortcol := 0, format_default := ''%s %g %g %g'', ntypes := atom_ntypes,
                  typenames := None\<rparr>))"

subsection \<open>\<^verbatim>\<open>pack\<close> and \<^verbatim>\<open>pack_triclinic\<close>\<close>

text \<open>
  One function per loop, with the loop variable \<open>i\<close> and the two cursors \<open>m\<close> and
  \<open>n\<close> as arguments. \<open>ids\<close> is \<open>None\<close> for a null pointer.
\<close>

function pack_loop ::
  "'d platform \<Rightarrow> 'd atom \<Rightarrow> int \<Rightarrow> int \<Rightarrow> int \<Rightarrow> 'd dump \<Rightarrow> (nat \<Rightarrow> int) option
     \<Rightarrow> 'd dump \<times> (nat \<Rightarrow> int) option" where
  "pack_loop P a i m n s ids =
     (if i < atom_nlocal a then
        (if atom_mask a (nat i) AND groupbit s \<noteq> 0 then
           let s1 = s\<lparr>buf := (buf s)(nat m := tag_to_double P (atom_tag a (nat i)))\<rparr>;
               s2 = s1\<lparr>buf := (buf s1)(nat (m + 1) := int_to_double P (atom_type a (nat i)))\<rparr>;
               s3 = s2\<lparr>buf := (buf s2)(nat (m + 2) := dsub P (atom_x a (nat i) 0) (boxxlo s2))\<rparr>;
               s4 = s3\<lparr>buf := (buf s3)(nat (m + 3) := dsub P (atom_x a (nat i) 1) (boxylo s3))\<rparr>;
               s5 = s4\<lparr>buf := (buf s4)(nat (m + 4) := dsub P (atom_x a (nat i) 2) (boxzlo s4))\<rparr>
           in (case ids of
                 None \<Rightarrow> pack_loop P a (i + 1) (m + 5) n s5 None
               | Some idv \<Rightarrow>
                   pack_loop P a (i + 1) (m + 5) (n + 1) s5
                     (Some (idv(nat n := atom_tag a (nat i)))))
         else pack_loop P a (i + 1) m n s ids)
      else (s, ids))"
  by pat_completeness auto
termination
  by (relation "measure (\<lambda>(P, a, i, m, n, s, ids). nat (atom_nlocal a - i))") auto

declare pack_loop.simps [simp del]

definition pack :: "'d platform \<Rightarrow> 'd atom \<Rightarrow> (nat \<Rightarrow> int) option \<Rightarrow> 'd dump
    \<Rightarrow> 'd dump \<times> (nat \<Rightarrow> int) option" where
  "pack P a ids s = pack_loop P a 0 0 0 s ids"

function pack_triclinic_loop ::
  "'d platform \<Rightarrow> 'd atom \<Rightarrow> int \<Rightarrow> int \<Rightarrow> int \<Rightarrow> 'd dump \<Rightarrow> (nat \<Rightarrow> int) option
     \<Rightarrow> 'd dump \<times> (nat \<Rightarrow> int) option" where
  "pack_triclinic_loop P a i m n s ids =
     (if i < atom_nlocal a then
        (if atom_mask a (nat i) AND groupbit s \<noteq> 0 then
           let s1 = s\<lparr>buf := (buf s)(nat m := tag_to_double P (atom_tag a (nat i)))\<rparr>;
               s2 = s1\<lparr>buf := (buf s1)(nat (m + 1) := int_to_double P (atom_type a (nat i)))\<rparr>;
               s3 = s2\<lparr>buf := (buf s2)(nat (m + 2) := atom_x a (nat i) 0)\<rparr>;
               s4 = s3\<lparr>buf := (buf s3)(nat (m + 3) := atom_x a (nat i) 1)\<rparr>;
               s5 = s4\<lparr>buf := (buf s4)(nat (m + 4) := atom_x a (nat i) 2)\<rparr>
           in (case ids of
                 None \<Rightarrow> pack_triclinic_loop P a (i + 1) (m + 5) n s5 None
               | Some idv \<Rightarrow>
                   pack_triclinic_loop P a (i + 1) (m + 5) (n + 1) s5
                     (Some (idv(nat n := atom_tag a (nat i)))))
         else pack_triclinic_loop P a (i + 1) m n s ids)
      else (s, ids))"
  by pat_completeness auto
termination
  by (relation "measure (\<lambda>(P, a, i, m, n, s, ids). nat (atom_nlocal a - i))") auto

declare pack_triclinic_loop.simps [simp del]

definition pack_triclinic :: "'d platform \<Rightarrow> 'd atom \<Rightarrow> (nat \<Rightarrow> int) option \<Rightarrow> 'd dump
    \<Rightarrow> 'd dump \<times> (nat \<Rightarrow> int) option" where
  "pack_triclinic P a ids s = pack_triclinic_loop P a 0 0 0 s ids"

text \<open>The atoms of the dump group among the local ones, in the order of the loop.\<close>

definition selected :: "'d atom \<Rightarrow> 'd dump \<Rightarrow> int list" where
  "selected a s = filter (\<lambda>i. atom_mask a (nat i) AND groupbit s \<noteq> 0) [0..atom_nlocal a - 1]"

subsection \<open>\<^verbatim>\<open>convert_string\<close>\<close>

text \<open>\<^verbatim>\<open>sprintf(&sbuf[offset], ...)\<close> stores the characters and their NUL from \<open>off\<close> on.\<close>

definition poke :: "(nat \<Rightarrow> char) \<Rightarrow> nat \<Rightarrow> string \<Rightarrow> (nat \<Rightarrow> char)" where
  "poke b off cs = (\<lambda>j. if off \<le> j \<and> j < off + length cs then cs ! (j - off) else b j)"

text \<open>
  The loop of lines 228 to 239, with \<open>i\<close>, \<open>m\<close> and \<open>offset\<close> as arguments. The first
  test is not in the source: it names the case in which \<open>offset + ONELINE\<close> leaves
  the range of \<^verbatim>\<open>int\<close>, where the comparison of line 229 has no defined value. The
  sum of line 230 is formed in 64 bits. \<^verbatim>\<open>memory->grow\<close> keeps the bytes of the block
  and extends it to the new \<open>maxsbuf\<close>. A line that does not fit, with its NUL,
  between \<open>offset\<close> and \<open>maxsbuf\<close> is a write past the end of the block.
\<close>

function convert_loop ::
  "'d platform \<Rightarrow> int \<Rightarrow> (nat \<Rightarrow> 'd) \<Rightarrow> int \<Rightarrow> int \<Rightarrow> int \<Rightarrow> 'd dump \<Rightarrow> (error + int) \<times> 'd dump" where
  "convert_loop P n mybuf i m offset s =
     (if i < n then
        (if offset + ONELINE > MAXSMALLINT then (Inl SignedOverflow, s)
         else if offset + ONELINE > maxsbuf s \<and> maxsbuf s + DELTA > MAXSMALLINT then (Inr (- 1), s)
         else
           let s1 = (if offset + ONELINE > maxsbuf s then s\<lparr>maxsbuf := maxsbuf s + DELTA\<rparr> else s)
           in (case format s1 of
                 None \<Rightarrow> (Inl NullFormat, s1)
               | Some f \<Rightarrow>
                  (case typenames s1 of
                     None \<Rightarrow> (Inl BadTypeIndex, s1)
                   | Some tn \<Rightarrow>
                      (case tn (cast_int P (mybuf (nat (m + 1)))) of
                         None \<Rightarrow> (Inl BadTypeIndex, s1)
                       | Some l \<Rightarrow>
                           let line = vsprintf P f l (mybuf (nat (m + 2))) (mybuf (nat (m + 3)))
                                        (mybuf (nat (m + 4)))
                           in if offset + int (length line) + 1 > maxsbuf s1
                              then (Inl BufferOverrun, s1)
                              else convert_loop P n mybuf (i + 1) (m + size_one s1)
                                     (offset + int (length line))
                                     (s1\<lparr>sbuf := poke (sbuf s1) (nat offset) (line @ [NUL])\<rparr>)))))
      else (Inr offset, s))"
  by pat_completeness auto
termination
  by (relation "measure (\<lambda>(P, n, mybuf, i, m, offset, s). nat (n - i))") auto

declare convert_loop.simps [simp del]

definition convert_string :: "'d platform \<Rightarrow> int \<Rightarrow> (nat \<Rightarrow> 'd) \<Rightarrow> 'd dump \<Rightarrow> (error + int) \<times> 'd dump" where
  "convert_string P n mybuf s = convert_loop P n mybuf 0 0 0 s"

subsection \<open>\<^verbatim>\<open>write_string\<close> and \<^verbatim>\<open>write_lines\<close>\<close>

text \<open>
  \<^verbatim>\<open>write_string\<close> receives the character buffer through its \<^verbatim>\<open>double *\<close> parameter;
  \<open>None\<close> is the null pointer.
\<close>

definition write_string :: "int \<Rightarrow> (nat \<Rightarrow> char) option \<Rightarrow> 'd dump \<Rightarrow> (error + unit) \<times> 'd dump" where
  "write_string n mybuf s =
     (case mybuf of
        None \<Rightarrow> (Inr (), s)
      | Some b \<Rightarrow>
          if n < 0 then (Inl BadCount, s)
          else (Inr (), s\<lparr>fp := fp s @ map b [0..<nat n]\<rparr>))"

function write_lines_loop ::
  "'d platform \<Rightarrow> int \<Rightarrow> (nat \<Rightarrow> 'd) \<Rightarrow> int \<Rightarrow> int \<Rightarrow> 'd dump \<Rightarrow> (error + unit) \<times> 'd dump" where
  "write_lines_loop P n mybuf i m s =
     (if i < n then
        (case format s of
           None \<Rightarrow> (Inl NullFormat, s)
         | Some f \<Rightarrow>
            (case typenames s of
               None \<Rightarrow> (Inl BadTypeIndex, s)
             | Some tn \<Rightarrow>
                (case tn (cast_int P (mybuf (nat (m + 1)))) of
                   None \<Rightarrow> (Inl BadTypeIndex, s)
                 | Some l \<Rightarrow>
                     write_lines_loop P n mybuf (i + 1) (m + size_one s)
                       (s\<lparr>fp := fp s @ vsprintf P f l (mybuf (nat (m + 2))) (mybuf (nat (m + 3)))
                                        (mybuf (nat (m + 4)))\<rparr>))))
      else (Inr (), s))"
  by pat_completeness auto
termination
  by (relation "measure (\<lambda>(P, n, mybuf, i, m, s). nat (n - i))") auto

declare write_lines_loop.simps [simp del]

definition write_lines :: "'d platform \<Rightarrow> int \<Rightarrow> (nat \<Rightarrow> 'd) \<Rightarrow> 'd dump \<Rightarrow> (error + unit) \<times> 'd dump" where
  "write_lines P n mybuf s = write_lines_loop P n mybuf 0 0 s"

subsection \<open>Notions used to state the properties\<close>

text \<open>
  The line that the record starting at slot \<open>m\<close> of \<open>mybuf\<close> formats to under the
  template and the label table of \<open>s\<close>, when both are there and the label can be
  read. Record \<open>k\<close> starts at slot \<open>k * size_one\<close>.
\<close>

definition slot_line :: "'d platform \<Rightarrow> 'd dump \<Rightarrow> (nat \<Rightarrow> 'd) \<Rightarrow> int \<Rightarrow> string option" where
  "slot_line P s mybuf m =
     (case format s of
        None \<Rightarrow> None
      | Some f \<Rightarrow>
         (case typenames s of
            None \<Rightarrow> None
          | Some tn \<Rightarrow>
             (case tn (cast_int P (mybuf (nat (m + 1)))) of
                None \<Rightarrow> None
              | Some l \<Rightarrow>
                  Some (vsprintf P f l (mybuf (nat (m + 2))) (mybuf (nat (m + 3)))
                          (mybuf (nat (m + 4)))))))"

definition record_line :: "'d platform \<Rightarrow> 'd dump \<Rightarrow> (nat \<Rightarrow> 'd) \<Rightarrow> int \<Rightarrow> string option" where
  "record_line P s mybuf k = slot_line P s mybuf (k * size_one s)"

definition record_text :: "'d platform \<Rightarrow> 'd dump \<Rightarrow> (nat \<Rightarrow> 'd) \<Rightarrow> int \<Rightarrow> string" where
  "record_text P s mybuf k = (case record_line P s mybuf k of None \<Rightarrow> [] | Some line \<Rightarrow> line)"

text \<open>
  The text of the records from \<open>i\<close> up to but not including \<open>k\<close>, the text of the
  first \<open>k\<close> records, and the bytes of a buffer below an offset.
\<close>

definition span_text :: "'d platform \<Rightarrow> 'd dump \<Rightarrow> (nat \<Rightarrow> 'd) \<Rightarrow> int \<Rightarrow> int \<Rightarrow> string" where
  "span_text P s mybuf i k = concat (map (record_text P s mybuf) [i..k - 1])"

definition batch_text :: "'d platform \<Rightarrow> 'd dump \<Rightarrow> (nat \<Rightarrow> 'd) \<Rightarrow> int \<Rightarrow> string" where
  "batch_text P s mybuf k = span_text P s mybuf 0 k"

definition bytes_below :: "(nat \<Rightarrow> char) \<Rightarrow> int \<Rightarrow> string" where
  "bytes_below b off = map b [0..<nat off]"

text \<open>
  A line fits when it can be formatted and, with the NUL that \<^verbatim>\<open>sprintf\<close> stores behind
  it, takes at most \<open>ONELINE\<close> bytes.
\<close>

definition line_fits :: "'d platform \<Rightarrow> 'd dump \<Rightarrow> (nat \<Rightarrow> 'd) \<Rightarrow> int \<Rightarrow> bool" where
  "line_fits P s mybuf k =
     (case record_line P s mybuf k of
        None \<Rightarrow> False
      | Some line \<Rightarrow> int (length line) + 1 \<le> ONELINE)"

definition lines_fit :: "'d platform \<Rightarrow> 'd dump \<Rightarrow> (nat \<Rightarrow> 'd) \<Rightarrow> int \<Rightarrow> bool" where
  "lines_fit P s mybuf n = list_all (line_fits P s mybuf) [0..n - 1]"

text \<open>
  The size check of lines 229 to 233 lets the loop go on when the sum is in range
  and the ceiling is not hit; the object is then as \<open>make_room\<close> gives it.
\<close>

definition goes_on :: "int \<Rightarrow> 'd dump \<Rightarrow> bool" where
  "goes_on offset s =
     (offset + ONELINE \<le> MAXSMALLINT
      \<and> \<not> (offset + ONELINE > maxsbuf s \<and> maxsbuf s + DELTA > MAXSMALLINT))"

definition make_room :: "int \<Rightarrow> 'd dump \<Rightarrow> 'd dump" where
  "make_room offset s =
     (if offset + ONELINE > maxsbuf s then s\<lparr>maxsbuf := maxsbuf s + DELTA\<rparr> else s)"

text \<open>
  The sizes \<open>maxsbuf\<close> can have: the base class starts it at 0 and only
  \<^verbatim>\<open>convert_string\<close> changes it, by \<open>DELTA\<close> and never beyond \<open>MAXSMALLINT\<close>.
\<close>

definition maxsbuf_ok :: "'d dump \<Rightarrow> bool" where
  "maxsbuf_ok s = (0 \<le> maxsbuf s \<and> maxsbuf s mod DELTA = 0 \<and> maxsbuf s \<le> MAXSMALLINT)"

text \<open>
  The least size reached from \<open>c\<close> in steps of \<open>DELTA\<close> that is no smaller than
  \<open>need\<close>.
\<close>

definition grown_capacity :: "int \<Rightarrow> int \<Rightarrow> int" where
  "grown_capacity c need =
     (if need \<le> c then c else c + DELTA * ((need - c + DELTA - 1) div DELTA))"

text \<open>
  The room the batch asks for: \<open>ONELINE\<close> bytes behind the text of all records but
  the last; nothing for an empty batch.
\<close>

definition required_room :: "'d platform \<Rightarrow> 'd dump \<Rightarrow> (nat \<Rightarrow> 'd) \<Rightarrow> int \<Rightarrow> int" where
  "required_room P s mybuf n =
     (if n \<le> 0 then 0 else int (length (batch_text P s mybuf (n - 1))) + ONELINE)"

definition brace_free :: "string \<Rightarrow> bool" where
  "brace_free cs = (CHR ''{'' \<notin> set cs \<and> CHR ''}'' \<notin> set cs)"

definition count_lines :: "string \<Rightarrow> nat" where
  "count_lines cs = length (filter (\<lambda>c. c = newline) cs)"

text \<open>
  The three extents print, under \<^verbatim>\<open>{}\<close>, without a brace and without a line break,
  as every number does.
\<close>

definition plain_text :: "string \<Rightarrow> bool" where
  "plain_text cs = (brace_free cs \<and> newline \<notin> set cs)"

definition plain_extents :: "'d platform \<Rightarrow> 'd dump \<Rightarrow> bool" where
  "plain_extents P s =
     (plain_text (fmt_double P (dsub P (boxxhi s) (boxxlo s)))
      \<and> plain_text (fmt_double P (dsub P (boxyhi s) (boxylo s)))
      \<and> plain_text (fmt_double P (dsub P (boxzhi s) (boxzlo s))))"

subsection \<open>A platform and an object for examples\<close>

text \<open>
  Coordinates that are whole numbers below a million in size, held as integers:
  \<^verbatim>\<open>%g\<close> and \<^verbatim>\<open>{}\<close> print such a double as the decimal text of the integer. The template
  is read for \<^verbatim>\<open>%s\<close> (the label), \<^verbatim>\<open>%g\<close> (the next coordinate) and \<^verbatim>\<open>%%\<close>; every
  other character is copied.
\<close>

fun example_printf :: "('d \<Rightarrow> string) \<Rightarrow> string \<Rightarrow> string \<Rightarrow> 'd list \<Rightarrow> string" where
  "example_printf g [] l ds = []"
| "example_printf g [c] l ds = [c]"
| "example_printf g (c # d # cs) l ds =
     (if c = CHR ''%'' then
        (if d = CHR ''s'' then l @ example_printf g cs l ds
         else if d = CHR ''g'' then
           (case ds of
              [] \<Rightarrow> example_printf g cs l []
            | x # xs \<Rightarrow> g x @ example_printf g cs l xs)
         else if d = CHR ''%'' then c # example_printf g cs l ds
         else c # example_printf g (d # cs) l ds)
      else c # example_printf g (d # cs) l ds)"

definition int_platform :: "int platform" where
  "int_platform =
     \<lparr>vsprintf = (\<lambda>f l a b c. example_printf dec_int f l [a, b, c]),
      cast_int = (\<lambda>d. d),
      tag_to_double = (\<lambda>i. i),
      int_to_double = (\<lambda>i. i),
      dsub = (\<lambda>a b. a - b),
      fmt_double = dec_int\<rparr>"

text \<open>
  Three local atoms, the first and the third in the dump group; the first is the
  example of the specification, at (3, 3, 3).
\<close>

definition example_atom :: "int atom" where
  "example_atom =
     \<lparr>atom_tag = (\<lambda>i. [11, 12, 13] ! i),
      atom_type = (\<lambda>i. [1, 2, 1] ! i),
      atom_mask = (\<lambda>i. [1, 2, 3] ! i),
      atom_x = (\<lambda>i c. [[3, 3, 3], [9, 9, 9], [4, 5, 6]] ! i ! c),
      atom_nlocal = 3\<rparr>"

text \<open>The object as the base-class constructor leaves it, on the coordinating process.\<close>

definition base_dump :: "int dump" where
  "base_dump =
     \<lparr>ntypes = 0, typenames = None, format = None, format_default = [],
      format_line_user = None, size_one = 0, buffer_allow = 0, buffer_flag = 0,
      sort_flag = 0, sortcol = 0, multifile = 0, singlefile_opened = 0, me = 0,
      groupbit = 1, boxxlo = 0, boxxhi = 0, boxylo = 0, boxyhi = 0, boxzlo = 0,
      boxzhi = 0, boxxy = 0, boxxz = 0, boxyz = 0, buf = (\<lambda>j. 0), maxsbuf = 0,
      sbuf = (\<lambda>j. NUL), fp = [], header_choice = None, pack_choice = None,
      write_choice = None\<rparr>"

text \<open>
  The object after the constructor for two atom types, and after \<^verbatim>\<open>init_style\<close> in
  an axis-aligned box.
\<close>

definition constructed_dump :: "int dump" where
  "constructed_dump = (case DumpEXTXYZ 5 0 0 2 base_dump of Inl e \<Rightarrow> base_dump | Inr s \<Rightarrow> s)"

definition example_dump :: "int dump" where
  "example_dump = init_style \<lparr>triclinic = 0\<rparr> constructed_dump"

text \<open>
  The object after \<^verbatim>\<open>dump_modify element\<close> has named the first atom type by \<open>w\<close>
  letters, and a batch in which every record is an atom of type 1 at the origin.
\<close>

definition labelled_dump :: "nat \<Rightarrow> int dump" where
  "labelled_dump w = snd (modify_param [''element'', replicate w (CHR ''X''), ''O''] example_dump)"

definition uniform_records :: "nat \<Rightarrow> int" where
  "uniform_records j = (if j mod 5 = 1 then 1 else 0)"

text \<open>Two records: atom 7 of type 1 at (3, 3, 3) and atom 8 of type 2 at (4, 5, 6).\<close>

definition two_records :: "nat \<Rightarrow> int" where
  "two_records j = [7, 1, 3, 3, 3, 8, 2, 4, 5, 6] ! j"

section \<open>Properties\<close>

subsection \<open>Decimal text and plain text\<close>

lemma fmt_plain_brace_free: "brace_free cs \<Longrightarrow> fmt_plain cs = Inr cs"
  by (induction cs rule: fmt_plain.induct) (auto simp: brace_free_def)

lemma lt10_cases: "(d::nat) < 10 \<Longrightarrow> d = 0 \<or> d = 1 \<or> d = 2 \<or> d = 3 \<or> d = 4 \<or> d = 5 \<or> d = 6 \<or> d = 7 \<or> d = 8 \<or> d = 9"
  by arith

lemma digit_val_digit_char: "d < 10 \<Longrightarrow> digit_val (digit_char d) = d"
  by (drule lt10_cases) (elim disjE; simp add: digit_val_def digit_char_def)

lemma is_digit_digit_char: "d < 10 \<Longrightarrow> is_digit (digit_char d)"
  by (drule lt10_cases) (elim disjE; simp add: is_digit_def digit_char_def)

lemma digits_dec_nat: "list_all is_digit (dec_nat k)"
proof (induction k rule: dec_nat.induct)
  case (1 k)
  show ?case
  proof (cases "k < 10")
    case True
    then show ?thesis by (subst dec_nat.simps) (simp add: is_digit_digit_char)
  next
    case False
    with 1 show ?thesis by (subst dec_nat.simps) (simp add: is_digit_digit_char)
  qed
qed

lemma dec_int_chars: "c \<in> set (dec_int i) \<Longrightarrow> c = CHR ''-'' \<or> is_digit c"
  using digits_dec_nat [of "nat i"] digits_dec_nat [of "nat (- i)"]
  by (cases "i < 0") (auto simp: dec_int_def list_all_iff)

lemma brace_free_dec_int: "brace_free (dec_int i)"
proof -
  have "\<not> is_digit (CHR ''{'')" "\<not> is_digit (CHR ''}'')"
    by (simp_all add: is_digit_def)
  then show ?thesis using dec_int_chars [of _ i] unfolding brace_free_def by fastforce
qed

lemma newline_dec_int: "newline \<notin> set (dec_int i)"
proof -
  have "\<not> is_digit newline" by (simp add: is_digit_def newline_def)
  then show ?thesis using dec_int_chars [of newline i] by (auto simp: newline_def)
qed

lemma dec_value_snoc: "dec_value (cs @ [c]) = 10 * dec_value cs + digit_val c"
  by (simp add: dec_value_def)

lemma dec_value_dec_nat: "dec_value (dec_nat k) = k"
proof (induction k rule: dec_nat.induct)
  case (1 k)
  show ?case
  proof (cases "k < 10")
    case True
    then show ?thesis
      by (subst dec_nat.simps) (simp add: dec_value_def digit_val_digit_char)
  next
    case False
    with 1 show ?thesis
      by (subst dec_nat.simps) (simp add: dec_value_snoc digit_val_digit_char)
  qed
qed

lemma default_typenames_at:
  "default_typenames i nt tn t = (if i \<le> t \<and> t \<le> nt then Some (dec_int t) else tn t)"
proof (induction i nt tn rule: default_typenames.induct)
  case (1 itype nt tn)
  show ?case
  proof (cases "itype \<le> nt")
    case True
    have "default_typenames itype nt tn t
        = default_typenames (itype + 1) nt (tn(itype \<mapsto> dec_int itype)) t"
      using True by (subst default_typenames.simps) simp
    also have "\<dots> = (if itype + 1 \<le> t \<and> t \<le> nt then Some (dec_int t)
                      else (tn(itype \<mapsto> dec_int itype)) t)"
      by (rule 1 [OF True])
    also have "\<dots> = (if itype \<le> t \<and> t \<le> nt then Some (dec_int t) else tn t)"
      using True by auto
    finally show ?thesis .
  next
    case False
    then show ?thesis by (subst default_typenames.simps) auto
  qed
qed

lemma copy_typenames_at:
  "copy_typenames arg i nt tn t = (if i \<le> t \<and> t \<le> nt then Some (arg ! nat t) else tn t)"
proof (induction arg i nt tn rule: copy_typenames.induct)
  case (1 arg itype nt tn)
  show ?case
  proof (cases "itype \<le> nt")
    case True
    have "copy_typenames arg itype nt tn t
        = copy_typenames arg (itype + 1) nt (tn(itype \<mapsto> arg ! nat itype)) t"
      using True by (subst copy_typenames.simps) simp
    also have "\<dots> = (if itype + 1 \<le> t \<and> t \<le> nt then Some (arg ! nat t)
                      else (tn(itype \<mapsto> arg ! nat itype)) t)"
      by (rule 1 [OF True])
    also have "\<dots> = (if itype \<le> t \<and> t \<le> nt then Some (arg ! nat t) else tn t)"
      using True by auto
    finally show ?thesis .
  next
    case False
    then show ?thesis by (subst copy_typenames.simps) auto
  qed
qed

lemma brace_free_append: "brace_free (xs @ ys) = (brace_free xs \<and> brace_free ys)"
  by (auto simp: brace_free_def)

lemma count_lines_append: "count_lines (xs @ ys) = count_lines xs + count_lines ys"
  by (simp add: count_lines_def)

lemma count_lines_none: "newline \<notin> set cs \<Longrightarrow> count_lines cs = 0"
  by (induction cs) (auto simp: count_lines_def)

lemma brace_free_lattice_text:
  "brace_free a \<Longrightarrow> brace_free b \<Longrightarrow> brace_free c \<Longrightarrow>
   brace_free (''Lattice='' @ [dquote] @ a @ '' 0.0 0.0 0.0 '' @ b @ '' 0.0 0.0 0.0 '' @ c @ [dquote] @ '' '' @ [newline])"
  by (simp add: brace_free_def dquote_def newline_def)

lemma count_lines_lattice_text:
  assumes "newline \<notin> set a" "newline \<notin> set b" "newline \<notin> set c"
  shows "count_lines (''Lattice='' @ [dquote] @ a @ '' 0.0 0.0 0.0 '' @ b @ '' 0.0 0.0 0.0 '' @ c
           @ [dquote] @ '' '' @ [newline]) = 1"
proof -
  have "count_lines ''Lattice='' = 0" "count_lines [dquote] = 0" "count_lines '' 0.0 0.0 0.0 '' = 0"
    "count_lines '' '' = 0" "count_lines [newline] = 1"
    by (simp_all add: count_lines_def dquote_def newline_def)
  moreover have "count_lines a = 0" "count_lines b = 0" "count_lines c = 0"
    using assms by (simp_all add: count_lines_none)
  ultimately show ?thesis
    by (simp only: count_lines_append)
qed

lemma fmt_print_plain: "brace_free cs \<Longrightarrow> fmt_print cs s = (Inr (), s\<lparr>fp := fp s @ cs\<rparr>)"
  by (simp add: fmt_print_def fmt_plain_brace_free)

lemma header_binary_plain:
  assumes "plain_extents P s"
  shows "header_binary P n s =
     (Inr (), s\<lparr>fp := fp s @ dec_int n @ [newline] @ ''Lattice='' @ [dquote]
        @ fmt_double P (dsub P (boxxhi s) (boxxlo s)) @ '' 0.0 0.0 0.0 ''
        @ fmt_double P (dsub P (boxyhi s) (boxylo s)) @ '' 0.0 0.0 0.0 ''
        @ fmt_double P (dsub P (boxzhi s) (boxzlo s)) @ [dquote] @ '' '' @ [newline]\<rparr>)"
proof -
  let ?lat = "''Lattice='' @ [dquote]
        @ fmt_double P (dsub P (boxxhi s) (boxxlo s)) @ '' 0.0 0.0 0.0 ''
        @ fmt_double P (dsub P (boxyhi s) (boxylo s)) @ '' 0.0 0.0 0.0 ''
        @ fmt_double P (dsub P (boxzhi s) (boxzlo s)) @ [dquote] @ '' '' @ [newline]"
  let ?s1 = "s\<lparr>fp := fp s @ dec_int n @ [newline]\<rparr>"
  have 1: "brace_free (dec_int n @ [newline])"
    using brace_free_dec_int [of n] by (simp add: brace_free_def newline_def)
  have 2: "brace_free ?lat"
    using assms by (intro brace_free_lattice_text) (simp_all add: plain_extents_def plain_text_def)
  have 3: "lattice_text P (dsub P (boxxhi ?s1) (boxxlo ?s1))
      (dsub P (boxyhi ?s1) (boxylo ?s1)) (dsub P (boxzhi ?s1) (boxzlo ?s1)) @ [newline] = ?lat"
    by (simp add: lattice_text_def)
  have 4: "fmt_print (dec_int n @ [newline]) s = (Inr (), ?s1)"
    using fmt_print_plain [OF 1, of s] by simp
  have "header_binary P n s = fmt_print (lattice_text P (dsub P (boxxhi ?s1) (boxxlo ?s1))
      (dsub P (boxyhi ?s1) (boxylo ?s1)) (dsub P (boxzhi ?s1) (boxzlo ?s1)) @ [newline]) ?s1"
    by (simp only: header_binary_def Let_def 4 prod.case sum.case)
  also have "\<dots> = fmt_print ?lat ?s1"
    by (simp only: 3)
  also have "\<dots> = (Inr (), ?s1\<lparr>fp := fp ?s1 @ ?lat\<rparr>)"
    by (rule fmt_print_plain [OF 2])
  finally show ?thesis by simp
qed

lemma header_binary_triclinic_eq: "header_binary_triclinic P n s = header_binary P n s"
  by (simp add: header_binary_triclinic_def header_binary_def)

lemma header_binary_tilt:
  "header_binary P n (s\<lparr>boxxy := txy, boxxz := txz, boxyz := tyz\<rparr>)
     = (fst (header_binary P n s), (snd (header_binary P n s))\<lparr>boxxy := txy, boxxz := txz, boxyz := tyz\<rparr>)"
  unfolding header_binary_def Let_def fmt_print_def
  by (simp split: sum.splits)

subsection \<open>The frame header\<close>

text \<open>
  Claim C5. On a process that is not the coordinating one (\<open>me\<close> is not 0)
  \<^verbatim>\<open>write_header\<close> emits nothing and changes nothing. On the coordinating process,
  once \<^verbatim>\<open>init_style\<close> has chosen a header variant, it appends to the stream exactly
  the particle count and a line break, then the lattice text and a line break: the
  three extents are upper bound minus lower bound of their axis and the six
  off-diagonal terms are \<^verbatim>\<open>0.0\<close>. The emitted text has two line breaks.
\<close>

theorem write_header_emits:
  "(me s \<noteq> 0 \<longrightarrow> write_header P n s = (Inr (), s)) \<and>
   (me s = 0 \<and> header_choice s \<noteq> None \<and> plain_extents P s \<longrightarrow>
      write_header P n s =
        (Inr (), s\<lparr>fp := fp s @ dec_int n @ [newline] @ ''Lattice='' @ [dquote]
           @ fmt_double P (dsub P (boxxhi s) (boxxlo s)) @ '' 0.0 0.0 0.0 ''
           @ fmt_double P (dsub P (boxyhi s) (boxylo s)) @ '' 0.0 0.0 0.0 ''
           @ fmt_double P (dsub P (boxzhi s) (boxzlo s)) @ [dquote] @ '' '' @ [newline]\<rparr>)
      \<and> count_lines (dec_int n @ [newline] @ ''Lattice='' @ [dquote]
           @ fmt_double P (dsub P (boxxhi s) (boxxlo s)) @ '' 0.0 0.0 0.0 ''
           @ fmt_double P (dsub P (boxyhi s) (boxylo s)) @ '' 0.0 0.0 0.0 ''
           @ fmt_double P (dsub P (boxzhi s) (boxzlo s)) @ [dquote] @ '' '' @ [newline]) = 2)"
proof (intro conjI impI)
  assume "me s \<noteq> 0"
  then show "write_header P n s = (Inr (), s)"
    by (simp add: write_header_def)
next
  assume a: "me s = 0 \<and> header_choice s \<noteq> None \<and> plain_extents P s"
  then obtain h where h: "header_choice s = Some h" by auto
  from a have "write_header P n s = header_binary P n s"
    by (cases h) (simp_all add: write_header_def h header_binary_triclinic_eq)
  with a show "write_header P n s =
        (Inr (), s\<lparr>fp := fp s @ dec_int n @ [newline] @ ''Lattice='' @ [dquote]
           @ fmt_double P (dsub P (boxxhi s) (boxxlo s)) @ '' 0.0 0.0 0.0 ''
           @ fmt_double P (dsub P (boxyhi s) (boxylo s)) @ '' 0.0 0.0 0.0 ''
           @ fmt_double P (dsub P (boxzhi s) (boxzlo s)) @ [dquote] @ '' '' @ [newline]\<rparr>)"
    by (simp only: header_binary_plain)
next
  assume a: "me s = 0 \<and> header_choice s \<noteq> None \<and> plain_extents P s"
  have "count_lines (dec_int n) = 0" "count_lines [newline] = 1"
    by (simp_all add: count_lines_none newline_dec_int) (simp add: count_lines_def)
  moreover have "count_lines (''Lattice='' @ [dquote]
           @ fmt_double P (dsub P (boxxhi s) (boxxlo s)) @ '' 0.0 0.0 0.0 ''
           @ fmt_double P (dsub P (boxyhi s) (boxylo s)) @ '' 0.0 0.0 0.0 ''
           @ fmt_double P (dsub P (boxzhi s) (boxzlo s)) @ [dquote] @ '' '' @ [newline]) = 1"
    using a by (intro count_lines_lattice_text) (simp_all add: plain_extents_def plain_text_def)
  ultimately show "count_lines (dec_int n @ [newline] @ ''Lattice='' @ [dquote]
           @ fmt_double P (dsub P (boxxhi s) (boxxlo s)) @ '' 0.0 0.0 0.0 ''
           @ fmt_double P (dsub P (boxyhi s) (boxylo s)) @ '' 0.0 0.0 0.0 ''
           @ fmt_double P (dsub P (boxzhi s) (boxzlo s)) @ [dquote] @ '' '' @ [newline]) = 2"
    by (simp only: count_lines_append [of "dec_int n"] count_lines_append [of "[newline]"])
qed

lemma dec_int_header: "dec_int 42 = ''42''" "dec_int 10 = ''10''" "dec_int 5 = ''5''" "dec_int 2 = ''2''"
  by (simp_all add: dec_int_def dec_nat.simps digit_char_def)

text \<open>
  The example of the specification: bounds (0,0,0) to (10,5,2) and 42 particles.
\<close>

theorem write_header_emits_witness:
  "me (example_dump\<lparr>me := 3\<rparr>) \<noteq> 0
   \<and> write_header int_platform 42 (example_dump\<lparr>me := 3\<rparr>) = (Inr (), example_dump\<lparr>me := 3\<rparr>)
   \<and> me (example_dump\<lparr>boxxhi := 10, boxyhi := 5, boxzhi := 2\<rparr>) = 0
   \<and> header_choice (example_dump\<lparr>boxxhi := 10, boxyhi := 5, boxzhi := 2\<rparr>) \<noteq> None
   \<and> plain_extents int_platform (example_dump\<lparr>boxxhi := 10, boxyhi := 5, boxzhi := 2\<rparr>)
   \<and> fp (snd (write_header int_platform 42 (example_dump\<lparr>boxxhi := 10, boxyhi := 5, boxzhi := 2\<rparr>)))
       = ''42'' @ [newline] @ ''Lattice='' @ [dquote] @ ''10 0.0 0.0 0.0 5 0.0 0.0 0.0 2'' @ [dquote] @ '' '' @ [newline]"
proof -
  let ?s = "example_dump\<lparr>boxxhi := 10, boxyhi := 5, boxzhi := 2\<rparr>"
  have ex: "me example_dump = 0" "header_choice example_dump = Some Header_binary"
    "fp example_dump = []" "boxxlo example_dump = 0" "boxylo example_dump = 0" "boxzlo example_dump = 0"
    by (simp_all add: example_dump_def constructed_dump_def DumpEXTXYZ_def base_dump_def
        init_style_def openfile_def Let_def)
  have p: "plain_extents int_platform ?s"
    by (simp add: plain_extents_def plain_text_def brace_free_def int_platform_def ex dec_int_header newline_def)
  have 1: "me (example_dump\<lparr>me := 3\<rparr>) \<noteq> 0" by simp
  have 2: "me ?s = 0 \<and> header_choice ?s \<noteq> None \<and> plain_extents int_platform ?s"
    using p by (simp add: ex)
  from write_header_emits [of "example_dump\<lparr>me := 3\<rparr>" int_platform 42] 1
  have 3: "write_header int_platform 42 (example_dump\<lparr>me := 3\<rparr>) = (Inr (), example_dump\<lparr>me := 3\<rparr>)"
    by blast
  from write_header_emits [of ?s int_platform 42] 2
  have "write_header int_platform 42 ?s =
        (Inr (), ?s\<lparr>fp := fp ?s @ dec_int 42 @ [newline] @ ''Lattice='' @ [dquote]
           @ fmt_double int_platform (dsub int_platform (boxxhi ?s) (boxxlo ?s)) @ '' 0.0 0.0 0.0 ''
           @ fmt_double int_platform (dsub int_platform (boxyhi ?s) (boxylo ?s)) @ '' 0.0 0.0 0.0 ''
           @ fmt_double int_platform (dsub int_platform (boxzhi ?s) (boxzlo ?s)) @ [dquote] @ '' '' @ [newline]\<rparr>)"
    by blast
  then have 4: "fp (snd (write_header int_platform 42 ?s))
       = ''42'' @ [newline] @ ''Lattice='' @ [dquote] @ ''10 0.0 0.0 0.0 5 0.0 0.0 0.0 2'' @ [dquote] @ '' '' @ [newline]"
    by (simp add: int_platform_def ex dec_int_header)
  from 1 2 3 4 show ?thesis by blast
qed

lemma example_dump_fields:
  "me example_dump = 0" "header_choice example_dump = Some Header_binary"
  "fp example_dump = []" "boxxlo example_dump = 0" "boxylo example_dump = 0"
  "boxzlo example_dump = 0" "boxxhi example_dump = 0" "boxyhi example_dump = 0"
  "boxzhi example_dump = 0" "ntypes example_dump = 2" "maxsbuf example_dump = 0"
  "size_one example_dump = 5"
  "format example_dump = Some (''%s %g %g %g'' @ [newline])"
  "typenames example_dump = Some (default_typenames 1 2 Map.empty)"
  by (simp_all add: example_dump_def constructed_dump_def DumpEXTXYZ_def base_dump_def
        init_style_def openfile_def Let_def)

lemma constructed_dump_fields:
  "ntypes constructed_dump = 2" "typenames constructed_dump = None"
  by (simp_all add: constructed_dump_def DumpEXTXYZ_def base_dump_def)

text \<open>
  Claim C9. The two header variants are the same function of the particle count and
  the object. The tilt factors \<open>boxxy\<close>, \<open>boxxz\<close> and \<open>boxyz\<close> have no influence
  on the outcome or on the stream, and the lattice line of the triclinic variant is
  the diagonal form built from the three extents.
\<close>

theorem header_variants_agree:
  "header_binary_triclinic P n s = header_binary P n s
   \<and> fst (header_binary_triclinic P n (s\<lparr>boxxy := txy, boxxz := txz, boxyz := tyz\<rparr>))
       = fst (header_binary P n s)
   \<and> fp (snd (header_binary_triclinic P n (s\<lparr>boxxy := txy, boxxz := txz, boxyz := tyz\<rparr>)))
       = fp (snd (header_binary P n s))
   \<and> (plain_extents P s \<longrightarrow>
        fp (snd (header_binary_triclinic P n (s\<lparr>boxxy := txy, boxxz := txz, boxyz := tyz\<rparr>)))
          = fp s @ dec_int n @ [newline] @ ''Lattice='' @ [dquote]
           @ fmt_double P (dsub P (boxxhi s) (boxxlo s)) @ '' 0.0 0.0 0.0 ''
           @ fmt_double P (dsub P (boxyhi s) (boxylo s)) @ '' 0.0 0.0 0.0 ''
           @ fmt_double P (dsub P (boxzhi s) (boxzlo s)) @ [dquote] @ '' '' @ [newline])"
proof -
  let ?t = "s\<lparr>boxxy := txy, boxxz := txz, boxyz := tyz\<rparr>"
  have 1: "header_binary_triclinic P n ?t
      = (fst (header_binary P n s), (snd (header_binary P n s))\<lparr>boxxy := txy, boxxz := txz, boxyz := tyz\<rparr>)"
    by (simp only: header_binary_triclinic_eq header_binary_tilt)
  have 2: "fst (header_binary_triclinic P n ?t) = fst (header_binary P n s)"
    by (simp only: 1 fst_conv)
  have 3: "fp (snd (header_binary_triclinic P n ?t)) = fp (snd (header_binary P n s))"
    by (simp only: 1 snd_conv) simp
  have 4: "fp (snd (header_binary_triclinic P n ?t))
          = fp s @ dec_int n @ [newline] @ ''Lattice='' @ [dquote]
           @ fmt_double P (dsub P (boxxhi s) (boxxlo s)) @ '' 0.0 0.0 0.0 ''
           @ fmt_double P (dsub P (boxyhi s) (boxylo s)) @ '' 0.0 0.0 0.0 ''
           @ fmt_double P (dsub P (boxzhi s) (boxzlo s)) @ [dquote] @ '' '' @ [newline]"
    if "plain_extents P s"
    unfolding 3 header_binary_plain [OF that] by simp
  from header_binary_triclinic_eq 2 3 4 show ?thesis by blast
qed

text \<open>
  A tilted box with bounds (0,0,0) to (10,5,2): the triclinic variant prints the
  diagonal form.
\<close>

theorem header_variants_agree_witness:
  "plain_extents int_platform (example_dump\<lparr>boxxhi := 10, boxyhi := 5, boxzhi := 2\<rparr>)
   \<and> fp (snd (header_binary_triclinic int_platform 42
        (example_dump\<lparr>boxxhi := 10, boxyhi := 5, boxzhi := 2, boxxy := 1, boxxz := 2, boxyz := 3\<rparr>)))
       = ''42'' @ [newline] @ ''Lattice='' @ [dquote] @ ''10 0.0 0.0 0.0 5 0.0 0.0 0.0 2'' @ [dquote] @ '' '' @ [newline]
   \<and> header_binary_triclinic int_platform 42 example_dump = header_binary int_platform 42 example_dump"
proof -
  let ?s = "example_dump\<lparr>boxxhi := 10, boxyhi := 5, boxzhi := 2\<rparr>"
  have p: "plain_extents int_platform ?s"
    by (simp add: plain_extents_def plain_text_def brace_free_def int_platform_def
        example_dump_fields dec_int_header newline_def)
  note header_variants_agree [where P = int_platform and n = 42 and s = ?s and txy = 1
      and txz = 2 and tyz = 3, THEN conjunct2, THEN conjunct2, THEN conjunct2, THEN mp, OF p]
  then have "fp (snd (header_binary_triclinic int_platform 42 (?s\<lparr>boxxy := 1, boxxz := 2, boxyz := 3\<rparr>)))
       = ''42'' @ [newline] @ ''Lattice='' @ [dquote] @ ''10 0.0 0.0 0.0 5 0.0 0.0 0.0 2'' @ [dquote] @ '' '' @ [newline]"
    by (simp add: int_platform_def example_dump_fields dec_int_header)
  moreover have "header_binary_triclinic int_platform 42 example_dump = header_binary int_platform 42 example_dump"
    by (rule header_variants_agree [where txy = 0 and txz = 0 and tyz = 0, THEN conjunct1])
  ultimately show ?thesis using p by blast
qed

subsection \<open>The label table\<close>

text \<open>
  Claim C6. When no label table exists and the type count \<open>T\<close> is at least 1,
  \<^verbatim>\<open>init_style\<close> creates one in which every type code \<open>t\<close> from 1 to \<open>T\<close> has the
  decimal text of \<open>t\<close> as label (digits only, denoting \<open>t\<close>), in this order, and no
  other slot is assigned. When a table exists, \<^verbatim>\<open>init_style\<close> leaves it as it is.
\<close>

theorem init_style_default_labels:
  "(typenames s = None \<and> 1 \<le> ntypes s \<longrightarrow>
      (\<exists>tn. typenames (init_style dmn s) = Some tn
         \<and> (\<forall>t. 1 \<le> t \<and> t \<le> ntypes s \<longrightarrow>
               tn t = Some (dec_int t) \<and> list_all is_digit (dec_int t) \<and> dec_value (dec_int t) = nat t)
         \<and> map tn [1..ntypes s] = map (\<lambda>t. Some (dec_int t)) [1..ntypes s]
         \<and> (\<forall>t. t < 1 \<or> ntypes s < t \<longrightarrow> tn t = None))
      \<and> ntypes (init_style dmn s) = ntypes s)
   \<and> (typenames s \<noteq> None \<longrightarrow>
        typenames (init_style dmn s) = typenames s \<and> ntypes (init_style dmn s) = ntypes s)"
proof -
  have nt: "ntypes (init_style dmn s) = ntypes s"
    by (simp add: init_style_def Let_def openfile_def split: option.splits)
  have keep: "typenames (init_style dmn s) = typenames s" if "typenames s \<noteq> None"
    using that by (simp add: init_style_def Let_def openfile_def split: option.splits)
  have new: "typenames (init_style dmn s) = Some (default_typenames 1 (ntypes s) Map.empty)"
    if "typenames s = None"
    using that by (simp add: init_style_def Let_def openfile_def split: option.splits)
  have dec: "list_all is_digit (dec_int t) \<and> dec_value (dec_int t) = nat t" if "1 \<le> t" for t
    using that by (simp add: dec_int_def digits_dec_nat dec_value_dec_nat)
  have "\<exists>tn. typenames (init_style dmn s) = Some tn
         \<and> (\<forall>t. 1 \<le> t \<and> t \<le> ntypes s \<longrightarrow>
               tn t = Some (dec_int t) \<and> list_all is_digit (dec_int t) \<and> dec_value (dec_int t) = nat t)
         \<and> map tn [1..ntypes s] = map (\<lambda>t. Some (dec_int t)) [1..ntypes s]
         \<and> (\<forall>t. t < 1 \<or> ntypes s < t \<longrightarrow> tn t = None)"
    if "typenames s = None"
  proof (intro exI conjI allI impI)
    show "typenames (init_style dmn s) = Some (default_typenames 1 (ntypes s) Map.empty)"
      by (rule new [OF that])
    show "default_typenames 1 (ntypes s) Map.empty t = Some (dec_int t)"
      if "1 \<le> t \<and> t \<le> ntypes s" for t
      using that by (simp add: default_typenames_at)
    show "list_all is_digit (dec_int t)" if "1 \<le> t \<and> t \<le> ntypes s" for t
      using that dec by blast
    show "dec_value (dec_int t) = nat t" if "1 \<le> t \<and> t \<le> ntypes s" for t
      using that dec by blast
    show "map (default_typenames 1 (ntypes s) Map.empty) [1..ntypes s]
        = map (\<lambda>t. Some (dec_int t)) [1..ntypes s]"
      by (rule map_cong) (simp_all add: default_typenames_at)
    show "default_typenames 1 (ntypes s) Map.empty t = None" if "t < 1 \<or> ntypes s < t" for t
      using that by (auto simp: default_typenames_at)
  qed
  with nt keep show ?thesis by blast
qed

text \<open>
  Two atom types: the labels are \<^verbatim>\<open>1\<close> and \<^verbatim>\<open>2\<close>; a second \<^verbatim>\<open>init_style\<close> keeps
  the table.
\<close>

theorem init_style_default_labels_witness:
  "typenames constructed_dump = None \<and> 1 \<le> ntypes constructed_dump
   \<and> (\<exists>tn. typenames (init_style \<lparr>triclinic = 0\<rparr> constructed_dump) = Some tn
         \<and> tn 1 = Some ''1'' \<and> tn 2 = Some ''2'' \<and> tn 0 = None \<and> tn 3 = None)
   \<and> typenames example_dump \<noteq> None
   \<and> typenames (init_style \<lparr>triclinic = 1\<rparr> example_dump) = typenames example_dump"
proof -
  have d: "dec_int 1 = ''1''" "dec_int 2 = ''2''"
    by (simp_all add: dec_int_def dec_nat.simps digit_char_def)
  have a: "typenames constructed_dump = None \<and> 1 \<le> ntypes constructed_dump"
    by (simp add: constructed_dump_fields)
  from init_style_default_labels [of constructed_dump "\<lparr>triclinic = 0\<rparr>"] a
  obtain tn where tn: "typenames (init_style \<lparr>triclinic = 0\<rparr> constructed_dump) = Some tn"
    "\<forall>t. 1 \<le> t \<and> t \<le> ntypes constructed_dump \<longrightarrow> tn t = Some (dec_int t)"
    "\<forall>t. t < 1 \<or> ntypes constructed_dump < t \<longrightarrow> tn t = None"
    by blast
  from tn(2) [rule_format, of 1] tn(2) [rule_format, of 2] tn(3) [rule_format, of 0] tn(3) [rule_format, of 3]
  have "tn 1 = Some ''1''" "tn 2 = Some ''2''" "tn 0 = None" "tn 3 = None"
    by (simp_all add: constructed_dump_fields d)
  with tn(1) have 1: "\<exists>tn. typenames (init_style \<lparr>triclinic = 0\<rparr> constructed_dump) = Some tn
         \<and> tn 1 = Some ''1'' \<and> tn 2 = Some ''2'' \<and> tn 0 = None \<and> tn 3 = None"
    by blast
  have b: "typenames example_dump \<noteq> None" by (simp add: example_dump_fields)
  from init_style_default_labels [of example_dump "\<lparr>triclinic = 1\<rparr>"] b
  have "typenames (init_style \<lparr>triclinic = 1\<rparr> example_dump) = typenames example_dump"
    by blast
  with a 1 b show ?thesis by blast
qed

text \<open>
  Claim C7. A request \<^verbatim>\<open>element\<close> with fewer labels than atom types ends in the
  configuration error, and the object, its label table included, is as before the
  call.
\<close>

theorem modify_param_too_few:
  "int (length labels) < ntypes s \<Longrightarrow>
   modify_param (''element'' # labels) s
     = (Inl (ErrorAll ''Dump modify element names do not match atom types''), s)"
  by (simp add: modify_param_def)

text \<open>
  One label for two atom types.
\<close>

theorem modify_param_too_few_witness:
  "int (length [''H'']) < ntypes example_dump
   \<and> modify_param [''element'', ''H''] example_dump
       = (Inl (ErrorAll ''Dump modify element names do not match atom types''), example_dump)
   \<and> typenames (snd (modify_param [''element'', ''H''] example_dump)) = typenames example_dump"
proof -
  have a: "int (length [''H'']) < ntypes example_dump"
    by (simp add: example_dump_fields)
  from modify_param_too_few [OF a]
  have b: "modify_param [''element'', ''H''] example_dump
       = (Inl (ErrorAll ''Dump modify element names do not match atom types''), example_dump)" .
  then have "typenames (snd (modify_param [''element'', ''H''] example_dump)) = typenames example_dump"
    by (simp only: snd_conv)
  with a b show ?thesis by blast
qed

text \<open>
  Claim C8. A request \<^verbatim>\<open>element\<close> with at least as many labels as atom types
  returns the type count plus one and installs a new table: type code \<open>t\<close> from 1
  to the type count reads the \<open>t\<close>-th label of the request, no other slot is
  assigned, and the table is built from the request alone, whatever table was there
  before.
\<close>

theorem modify_param_replaces:
  "ntypes s \<le> int (length labels) \<Longrightarrow>
   \<exists>tn. modify_param (''element'' # labels) s = (Inr (ntypes s + 1), s\<lparr>typenames := Some tn\<rparr>)
      \<and> (\<forall>t. 1 \<le> t \<and> t \<le> ntypes s \<longrightarrow> tn t = Some (labels ! nat (t - 1)))
      \<and> (\<forall>t. t < 1 \<or> ntypes s < t \<longrightarrow> tn t = None)
      \<and> tn = copy_typenames (''element'' # labels) 1 (ntypes s) Map.empty"
proof (intro exI conjI allI impI)
  assume a: "ntypes s \<le> int (length labels)"
  show "modify_param (''element'' # labels) s
      = (Inr (ntypes s + 1),
         s\<lparr>typenames := Some (copy_typenames (''element'' # labels) 1 (ntypes s) Map.empty)\<rparr>)"
    using a by (simp add: modify_param_def Let_def)
  show "copy_typenames (''element'' # labels) 1 (ntypes s) Map.empty t = Some (labels ! nat (t - 1))"
    if "1 \<le> t \<and> t \<le> ntypes s" for t
  proof -
    from that obtain k where k: "nat t = Suc k" by (cases "nat t") auto
    then have "nat (t - 1) = k" by simp
    with that k show ?thesis by (simp add: copy_typenames_at)
  qed
  show "copy_typenames (''element'' # labels) 1 (ntypes s) Map.empty t = None"
    if "t < 1 \<or> ntypes s < t" for t
    using that by (auto simp: copy_typenames_at)
  show "copy_typenames (''element'' # labels) 1 (ntypes s) Map.empty
      = copy_typenames (''element'' # labels) 1 (ntypes s) Map.empty" ..
qed

text \<open>
  Two labels for two atom types replace the default table.
\<close>

theorem modify_param_replaces_witness:
  "ntypes example_dump \<le> int (length [''H'', ''O''])
   \<and> (\<exists>tn. modify_param [''element'', ''H'', ''O''] example_dump
             = (Inr 3, example_dump\<lparr>typenames := Some tn\<rparr>)
          \<and> tn 1 = Some ''H'' \<and> tn 2 = Some ''O'' \<and> tn 0 = None \<and> tn 3 = None)"
proof -
  have a: "ntypes example_dump \<le> int (length [''H'', ''O''])"
    by (simp add: example_dump_fields)
  from modify_param_replaces [OF a]
  obtain tn where tn: "modify_param [''element'', ''H'', ''O''] example_dump
        = (Inr (ntypes example_dump + 1), example_dump\<lparr>typenames := Some tn\<rparr>)"
    "\<forall>t. 1 \<le> t \<and> t \<le> ntypes example_dump \<longrightarrow> tn t = Some ([''H'', ''O''] ! nat (t - 1))"
    "\<forall>t. t < 1 \<or> ntypes example_dump < t \<longrightarrow> tn t = None"
    by blast
  from tn(2) [rule_format, of 1] tn(2) [rule_format, of 2] tn(3) [rule_format, of 0]
    tn(3) [rule_format, of 3]
  have "tn 1 = Some ''H''" "tn 2 = Some ''O''" "tn 0 = None" "tn 3 = None"
    by (simp_all add: example_dump_fields)
  moreover from tn(1) have "modify_param [''element'', ''H'', ''O''] example_dump
        = (Inr 3, example_dump\<lparr>typenames := Some tn\<rparr>)"
    by (simp add: example_dump_fields)
  ultimately show ?thesis using a by blast
qed

subsection \<open>Packing\<close>

lemma pack_loop_stop: "\<not> i < atom_nlocal a \<Longrightarrow> pack_loop P a i m n s ids = (s, ids)"
  by (subst pack_loop.simps) simp

lemma pack_loop_skip:
  "i < atom_nlocal a \<Longrightarrow> \<not> atom_mask a (nat i) AND groupbit s \<noteq> 0 \<Longrightarrow>
   pack_loop P a i m n s ids = pack_loop P a (i + 1) m n s ids"
  by (subst pack_loop.simps) simp

lemma pack_loop_take:
  "i < atom_nlocal a \<Longrightarrow> atom_mask a (nat i) AND groupbit s \<noteq> 0 \<Longrightarrow>
   pack_loop P a i m n s ids =
     pack_loop P a (i + 1) (m + 5) (case ids of None \<Rightarrow> n | Some idv \<Rightarrow> n + 1)
       (s\<lparr>buf := (buf s)
          (nat m := tag_to_double P (atom_tag a (nat i)),
           nat (m + 1) := int_to_double P (atom_type a (nat i)),
           nat (m + 2) := dsub P (atom_x a (nat i) 0) (boxxlo s),
           nat (m + 3) := dsub P (atom_x a (nat i) 1) (boxylo s),
           nat (m + 4) := dsub P (atom_x a (nat i) 2) (boxzlo s))\<rparr>)
       (case ids of None \<Rightarrow> None | Some idv \<Rightarrow> Some (idv(nat n := atom_tag a (nat i))))"
  by (subst pack_loop.simps) (simp add: Let_def split: option.splits)

lemma pack_loop_below:
  "0 \<le> m \<Longrightarrow> j < nat m \<Longrightarrow> buf (fst (pack_loop P a i m n s ids)) j = buf s j"
proof (induction "nat (atom_nlocal a - i)" arbitrary: i m n s ids)
  case 0
  then show ?case by (simp add: pack_loop_stop)
next
  case (Suc d)
  then have lt: "i < atom_nlocal a" and d: "d = nat (atom_nlocal a - (i + 1))" by linarith+
  show ?case
  proof (cases "atom_mask a (nat i) AND groupbit s \<noteq> 0")
    case False
    with lt Suc(1) [OF d Suc(3,4)] show ?thesis by (simp add: pack_loop_skip)
  next
    case True
    have "0 \<le> m + 5" "j < nat (m + 5)" using Suc(3,4) by simp_all
    note ih = Suc(1) [OF d this]
    have ne: "j \<noteq> nat m" "j \<noteq> nat (m + 1)" "j \<noteq> nat (m + 2)" "j \<noteq> nat (m + 3)" "j \<noteq> nat (m + 4)"
      using Suc(3,4) by linarith+
    show ?thesis
      unfolding pack_loop_take [OF lt True] ih using ne by simp
  qed
qed

text \<open>The five values that the loop body stores for a selected atom.\<close>

lemma pack_loop_slots:
  assumes "0 \<le> i" "0 \<le> m"
    and "k < length (filter (\<lambda>i. atom_mask a (nat i) AND groupbit s \<noteq> 0) [i..atom_nlocal a - 1])"
    and "c < 5"
  shows "buf (fst (pack_loop P a i m n s ids)) (nat m + 5 * k + c)
     = [tag_to_double P (atom_tag a (nat (filter (\<lambda>i. atom_mask a (nat i) AND groupbit s \<noteq> 0) [i..atom_nlocal a - 1] ! k))),
        int_to_double P (atom_type a (nat (filter (\<lambda>i. atom_mask a (nat i) AND groupbit s \<noteq> 0) [i..atom_nlocal a - 1] ! k))),
        dsub P (atom_x a (nat (filter (\<lambda>i. atom_mask a (nat i) AND groupbit s \<noteq> 0) [i..atom_nlocal a - 1] ! k)) 0) (boxxlo s),
        dsub P (atom_x a (nat (filter (\<lambda>i. atom_mask a (nat i) AND groupbit s \<noteq> 0) [i..atom_nlocal a - 1] ! k)) 1) (boxylo s),
        dsub P (atom_x a (nat (filter (\<lambda>i. atom_mask a (nat i) AND groupbit s \<noteq> 0) [i..atom_nlocal a - 1] ! k)) 2) (boxzlo s)] ! c"
  using assms
proof (induction "nat (atom_nlocal a - i)" arbitrary: i m n s ids k)
  case 0
  then show ?case by simp
next
  case (Suc d)
  then have lt: "i < atom_nlocal a" and d: "d = nat (atom_nlocal a - (i + 1))" by linarith+
  from lt have up: "[i..atom_nlocal a - 1] = i # [i + 1..atom_nlocal a - 1]"
    by (simp add: upto_rec1)
  show ?case
  proof (cases "atom_mask a (nat i) AND groupbit s \<noteq> 0")
    case False
    then have f: "filter (\<lambda>i. atom_mask a (nat i) AND groupbit s \<noteq> 0) [i..atom_nlocal a - 1]
        = filter (\<lambda>i. atom_mask a (nat i) AND groupbit s \<noteq> 0) [i + 1..atom_nlocal a - 1]"
      by (simp add: up)
    have "0 \<le> i + 1" using Suc(3) by simp
    from Suc(1) [OF d this Suc(4) Suc(5) [unfolded f] Suc(6)] show ?thesis
      unfolding f pack_loop_skip [OF lt False] .
  next
    case True
    let ?s5 = "s\<lparr>buf := (buf s)
          (nat m := tag_to_double P (atom_tag a (nat i)),
           nat (m + 1) := int_to_double P (atom_type a (nat i)),
           nat (m + 2) := dsub P (atom_x a (nat i) 0) (boxxlo s),
           nat (m + 3) := dsub P (atom_x a (nat i) 1) (boxylo s),
           nat (m + 4) := dsub P (atom_x a (nat i) 2) (boxzlo s))\<rparr>"
    from True have f: "filter (\<lambda>i. atom_mask a (nat i) AND groupbit s \<noteq> 0) [i..atom_nlocal a - 1]
        = i # filter (\<lambda>i. atom_mask a (nat i) AND groupbit ?s5 \<noteq> 0) [i + 1..atom_nlocal a - 1]"
      by (simp add: up)
    have i1: "0 \<le> i + 1" and m5: "0 \<le> m + 5" using Suc(3,4) by simp_all
    have nm: "nat (m + 1) = nat m + 1" "nat (m + 2) = nat m + 2" "nat (m + 3) = nat m + 3"
      "nat (m + 4) = nat m + 4" "nat (m + 5) = nat m + 5"
      using Suc(4) by linarith+
    show ?thesis
    proof (cases k)
      case 0
      have "nat m + c < nat (m + 5)" using Suc(6) nm by simp
      from pack_loop_below [OF m5 this]
      have "buf (fst (pack_loop P a i m n s ids)) (nat m + c) = buf ?s5 (nat m + c)"
        unfolding pack_loop_take [OF lt True] .
      moreover from Suc(6) have "c = 0 \<or> c = 1 \<or> c = 2 \<or> c = 3 \<or> c = 4" by arith
      ultimately show ?thesis
        unfolding f 0 by (elim disjE) (simp_all add: nm)
    next
      case (Suc k')
      with Suc.prems(3) have k': "k' < length (filter (\<lambda>i. atom_mask a (nat i) AND groupbit ?s5 \<noteq> 0) [i + 1..atom_nlocal a - 1])"
        unfolding f by simp
      have idx: "nat m + 5 * k + c = nat (m + 5) + 5 * k' + c"
        using Suc nm by simp
      have sel: "filter (\<lambda>i. atom_mask a (nat i) AND groupbit s \<noteq> 0) [i..atom_nlocal a - 1] ! k
          = filter (\<lambda>i. atom_mask a (nat i) AND groupbit s \<noteq> 0) [i + 1..atom_nlocal a - 1] ! k'"
        unfolding f Suc by simp
      from Suc.hyps(1) [OF d i1 m5 k' Suc.prems(4)] show ?thesis
        unfolding pack_loop_take [OF lt True] idx sel by simp
    qed
  qed
qed

lemma pack_triclinic_loop_stop: "\<not> i < atom_nlocal a \<Longrightarrow> pack_triclinic_loop P a i m n s ids = (s, ids)"
  by (subst pack_triclinic_loop.simps) simp

lemma pack_triclinic_loop_skip:
  "i < atom_nlocal a \<Longrightarrow> \<not> atom_mask a (nat i) AND groupbit s \<noteq> 0 \<Longrightarrow>
   pack_triclinic_loop P a i m n s ids = pack_triclinic_loop P a (i + 1) m n s ids"
  by (subst pack_triclinic_loop.simps) simp

lemma pack_triclinic_loop_take:
  "i < atom_nlocal a \<Longrightarrow> atom_mask a (nat i) AND groupbit s \<noteq> 0 \<Longrightarrow>
   pack_triclinic_loop P a i m n s ids =
     pack_triclinic_loop P a (i + 1) (m + 5) (case ids of None \<Rightarrow> n | Some idv \<Rightarrow> n + 1)
       (s\<lparr>buf := (buf s)
          (nat m := tag_to_double P (atom_tag a (nat i)),
           nat (m + 1) := int_to_double P (atom_type a (nat i)),
           nat (m + 2) := atom_x a (nat i) 0,
           nat (m + 3) := atom_x a (nat i) 1,
           nat (m + 4) := atom_x a (nat i) 2)\<rparr>)
       (case ids of None \<Rightarrow> None | Some idv \<Rightarrow> Some (idv(nat n := atom_tag a (nat i))))"
  by (subst pack_triclinic_loop.simps) (simp add: Let_def split: option.splits)

lemma pack_triclinic_loop_below:
  "0 \<le> m \<Longrightarrow> j < nat m \<Longrightarrow> buf (fst (pack_triclinic_loop P a i m n s ids)) j = buf s j"
proof (induction "nat (atom_nlocal a - i)" arbitrary: i m n s ids)
  case 0
  then show ?case by (simp add: pack_triclinic_loop_stop)
next
  case (Suc d)
  then have lt: "i < atom_nlocal a" and d: "d = nat (atom_nlocal a - (i + 1))" by linarith+
  show ?case
  proof (cases "atom_mask a (nat i) AND groupbit s \<noteq> 0")
    case False
    with lt Suc(1) [OF d Suc(3,4)] show ?thesis by (simp add: pack_triclinic_loop_skip)
  next
    case True
    have "0 \<le> m + 5" "j < nat (m + 5)" using Suc(3,4) by simp_all
    note ih = Suc(1) [OF d this]
    have ne: "j \<noteq> nat m" "j \<noteq> nat (m + 1)" "j \<noteq> nat (m + 2)" "j \<noteq> nat (m + 3)" "j \<noteq> nat (m + 4)"
      using Suc(3,4) by linarith+
    show ?thesis
      unfolding pack_triclinic_loop_take [OF lt True] ih using ne by simp
  qed
qed

lemma pack_triclinic_loop_slots:
  assumes "0 \<le> i" "0 \<le> m"
    and "k < length (filter (\<lambda>i. atom_mask a (nat i) AND groupbit s \<noteq> 0) [i..atom_nlocal a - 1])"
    and "c < 5"
  shows "buf (fst (pack_triclinic_loop P a i m n s ids)) (nat m + 5 * k + c)
     = [tag_to_double P (atom_tag a (nat (filter (\<lambda>i. atom_mask a (nat i) AND groupbit s \<noteq> 0) [i..atom_nlocal a - 1] ! k))),
        int_to_double P (atom_type a (nat (filter (\<lambda>i. atom_mask a (nat i) AND groupbit s \<noteq> 0) [i..atom_nlocal a - 1] ! k))),
        atom_x a (nat (filter (\<lambda>i. atom_mask a (nat i) AND groupbit s \<noteq> 0) [i..atom_nlocal a - 1] ! k)) 0,
        atom_x a (nat (filter (\<lambda>i. atom_mask a (nat i) AND groupbit s \<noteq> 0) [i..atom_nlocal a - 1] ! k)) 1,
        atom_x a (nat (filter (\<lambda>i. atom_mask a (nat i) AND groupbit s \<noteq> 0) [i..atom_nlocal a - 1] ! k)) 2] ! c"
  using assms
proof (induction "nat (atom_nlocal a - i)" arbitrary: i m n s ids k)
  case 0
  then show ?case by simp
next
  case (Suc d)
  then have lt: "i < atom_nlocal a" and d: "d = nat (atom_nlocal a - (i + 1))" by linarith+
  from lt have up: "[i..atom_nlocal a - 1] = i # [i + 1..atom_nlocal a - 1]"
    by (simp add: upto_rec1)
  show ?case
  proof (cases "atom_mask a (nat i) AND groupbit s \<noteq> 0")
    case False
    then have f: "filter (\<lambda>i. atom_mask a (nat i) AND groupbit s \<noteq> 0) [i..atom_nlocal a - 1]
        = filter (\<lambda>i. atom_mask a (nat i) AND groupbit s \<noteq> 0) [i + 1..atom_nlocal a - 1]"
      by (simp add: up)
    have "0 \<le> i + 1" using Suc(3) by simp
    from Suc(1) [OF d this Suc(4) Suc(5) [unfolded f] Suc(6)] show ?thesis
      unfolding f pack_triclinic_loop_skip [OF lt False] .
  next
    case True
    let ?s5 = "s\<lparr>buf := (buf s)
          (nat m := tag_to_double P (atom_tag a (nat i)),
           nat (m + 1) := int_to_double P (atom_type a (nat i)),
           nat (m + 2) := atom_x a (nat i) 0,
           nat (m + 3) := atom_x a (nat i) 1,
           nat (m + 4) := atom_x a (nat i) 2)\<rparr>"
    from True have f: "filter (\<lambda>i. atom_mask a (nat i) AND groupbit s \<noteq> 0) [i..atom_nlocal a - 1]
        = i # filter (\<lambda>i. atom_mask a (nat i) AND groupbit ?s5 \<noteq> 0) [i + 1..atom_nlocal a - 1]"
      by (simp add: up)
    have i1: "0 \<le> i + 1" and m5: "0 \<le> m + 5" using Suc(3,4) by simp_all
    have nm: "nat (m + 1) = nat m + 1" "nat (m + 2) = nat m + 2" "nat (m + 3) = nat m + 3"
      "nat (m + 4) = nat m + 4" "nat (m + 5) = nat m + 5"
      using Suc(4) by linarith+
    show ?thesis
    proof (cases k)
      case 0
      have "nat m + c < nat (m + 5)" using Suc(6) nm by simp
      from pack_triclinic_loop_below [OF m5 this]
      have "buf (fst (pack_triclinic_loop P a i m n s ids)) (nat m + c) = buf ?s5 (nat m + c)"
        unfolding pack_triclinic_loop_take [OF lt True] .
      moreover from Suc(6) have "c = 0 \<or> c = 1 \<or> c = 2 \<or> c = 3 \<or> c = 4" by arith
      ultimately show ?thesis
        unfolding f 0 by (elim disjE) (simp_all add: nm)
    next
      case (Suc k')
      with Suc.prems(3) have k': "k' < length (filter (\<lambda>i. atom_mask a (nat i) AND groupbit ?s5 \<noteq> 0) [i + 1..atom_nlocal a - 1])"
        unfolding f by simp
      have idx: "nat m + 5 * k + c = nat (m + 5) + 5 * k' + c"
        using Suc nm by simp
      have sel: "filter (\<lambda>i. atom_mask a (nat i) AND groupbit s \<noteq> 0) [i..atom_nlocal a - 1] ! k
          = filter (\<lambda>i. atom_mask a (nat i) AND groupbit s \<noteq> 0) [i + 1..atom_nlocal a - 1] ! k'"
        unfolding f Suc by simp
      from Suc.hyps(1) [OF d i1 m5 k' Suc.prems(4)] show ?thesis
        unfolding pack_triclinic_loop_take [OF lt True] idx sel by simp
    qed
  qed
qed

text \<open>
  Claim C4. For the \<open>k\<close>-th atom of the dump group, \<^verbatim>\<open>pack\<close> fills the five slots
  from \<open>5 * k\<close> on with the identifier, the type code and, for each axis on its
  own, the coordinate minus the lower box bound of that axis; \<^verbatim>\<open>pack_triclinic\<close>
  fills them with the identifier, the type code and the three coordinates as they
  are. Identifier and type code are stored by the conversion to \<^verbatim>\<open>double\<close> alone.
\<close>

theorem pack_slots:
  assumes "k < length (selected a s)"
  shows "buf (fst (pack P a ids s)) (5 * k) = tag_to_double P (atom_tag a (nat (selected a s ! k)))
    \<and> buf (fst (pack P a ids s)) (5 * k + 1) = int_to_double P (atom_type a (nat (selected a s ! k)))
    \<and> buf (fst (pack P a ids s)) (5 * k + 2) = dsub P (atom_x a (nat (selected a s ! k)) 0) (boxxlo s)
    \<and> buf (fst (pack P a ids s)) (5 * k + 3) = dsub P (atom_x a (nat (selected a s ! k)) 1) (boxylo s)
    \<and> buf (fst (pack P a ids s)) (5 * k + 4) = dsub P (atom_x a (nat (selected a s ! k)) 2) (boxzlo s)
    \<and> buf (fst (pack_triclinic P a ids s)) (5 * k) = tag_to_double P (atom_tag a (nat (selected a s ! k)))
    \<and> buf (fst (pack_triclinic P a ids s)) (5 * k + 1) = int_to_double P (atom_type a (nat (selected a s ! k)))
    \<and> buf (fst (pack_triclinic P a ids s)) (5 * k + 2) = atom_x a (nat (selected a s ! k)) 0
    \<and> buf (fst (pack_triclinic P a ids s)) (5 * k + 3) = atom_x a (nat (selected a s ! k)) 1
    \<and> buf (fst (pack_triclinic P a ids s)) (5 * k + 4) = atom_x a (nat (selected a s ! k)) 2"
proof -
  have z: "(0::int) \<le> 0" by simp
  note k = assms [unfolded selected_def]
  note p = pack_loop_slots [OF z z k, of _ P 0 ids, folded selected_def pack_def]
  note t = pack_triclinic_loop_slots [OF z z k, of _ P 0 ids, folded selected_def pack_triclinic_def]
  from p [of 0] p [of 1] p [of 2] p [of 3] p [of 4] t [of 0] t [of 1] t [of 2] t [of 3] t [of 4]
  show ?thesis by simp
qed

lemma example_selected:
  "selected example_atom (example_dump\<lparr>boxxlo := 1, boxylo := - 2, boxzlo := 0\<rparr>) = [0, 2]"
  by (simp add: selected_def example_atom_def example_dump_def constructed_dump_def
      DumpEXTXYZ_def base_dump_def init_style_def openfile_def Let_def upto.simps)

text \<open>
  The example of the specification: lower bounds (1, -2, 0) and an atom at (3, 3, 3)
  give (2, 5, 3) in the axis-aligned variant and (3, 3, 3) in the triclinic one.
\<close>

theorem pack_slots_witness:
  "0 < length (selected example_atom (example_dump\<lparr>boxxlo := 1, boxylo := - 2, boxzlo := 0\<rparr>))
   \<and> map (buf (fst (pack int_platform example_atom None
              (example_dump\<lparr>boxxlo := 1, boxylo := - 2, boxzlo := 0\<rparr>)))) [0, 1, 2, 3, 4]
        = [11, 1, 2, 5, 3]
   \<and> map (buf (fst (pack_triclinic int_platform example_atom None
              (example_dump\<lparr>boxxlo := 1, boxylo := - 2, boxzlo := 0\<rparr>)))) [0, 1, 2, 3, 4]
        = [11, 1, 3, 3, 3]"
proof -
  let ?s = "example_dump\<lparr>boxxlo := 1, boxylo := - 2, boxzlo := 0\<rparr>"
  have a: "0 < length (selected example_atom ?s)"
    by (simp add: example_selected)
  from pack_slots [OF a, of int_platform None, unfolded example_selected]
  have "map (buf (fst (pack int_platform example_atom None ?s))) [0, 1, 2, 3, 4] = [11, 1, 2, 5, 3]"
    "map (buf (fst (pack_triclinic int_platform example_atom None ?s))) [0, 1, 2, 3, 4] = [11, 1, 3, 3, 3]"
    by (simp_all add: example_atom_def int_platform_def eval_nat_numeral)
  with a show ?thesis by blast
qed

subsection \<open>Sizes of the buffer\<close>

lemma ceil_div_lower: "0 < (D::int) \<Longrightarrow> x \<le> D * ((x + D - 1) div D)"
  using mult_div_mod_eq [of D "x + D - 1"] pos_mod_bound [of D "x + D - 1"] by linarith

lemma ceil_div_upper: "0 < (D::int) \<Longrightarrow> D * ((x + D - 1) div D) < x + D"
  using mult_div_mod_eq [of D "x + D - 1"] pos_mod_sign [of D "x + D - 1"] by linarith

lemma ceil_div_unique:
  assumes "0 < (D::int)" "x \<le> D * j" "D * j < x + D"
  shows "j = (x + D - 1) div D"
proof -
  let ?q = "(x + D - 1) div D"
  from ceil_div_lower [OF assms(1), of x] ceil_div_upper [OF assms(1), of x] assms
  have "D * j < D * (?q + 1)" "D * ?q < D * (j + 1)"
    by (simp_all add: algebra_simps)
  with assms(1) have "j < ?q + 1" "?q < j + 1"
    by (simp_all add: mult_less_cancel_left_pos)
  then show ?thesis by linarith
qed

lemma DELTA_pos: "0 < DELTA"
  by (simp add: DELTA_def)

lemma gc_le: "need \<le> c \<Longrightarrow> grown_capacity c need = c"
  by (simp add: grown_capacity_def)

lemma gc_unique:
  assumes "c < need" "need \<le> c + DELTA * j" "c + DELTA * j < need + DELTA"
  shows "grown_capacity c need = c + DELTA * j"
proof -
  from assms have "j = (need - c + DELTA - 1) div DELTA"
    by (intro ceil_div_unique [OF DELTA_pos]) simp_all
  with assms(1) show ?thesis by (simp add: grown_capacity_def)
qed

lemma gc_bounds:
  assumes "c < need"
  shows "need \<le> grown_capacity c need" "grown_capacity c need < need + DELTA"
  using assms ceil_div_lower [OF DELTA_pos, of "need - c"] ceil_div_upper [OF DELTA_pos, of "need - c"]
  by (simp_all add: grown_capacity_def)

lemma gc_step: "c < need \<Longrightarrow> need \<le> c + DELTA \<Longrightarrow> grown_capacity c need = c + DELTA"
  using gc_unique [of c need 1] by simp

lemma gc_ge: "need \<le> grown_capacity c need" "c \<le> grown_capacity c need"
proof -
  show "need \<le> grown_capacity c need"
    using gc_bounds(1) [of c need] gc_le [of need c] by (cases "c < need") simp_all
  show "c \<le> grown_capacity c need"
    using gc_bounds(1) [of c need] gc_le [of need c] by (cases "c < need") simp_all
qed

lemma gc_mod: "grown_capacity c need mod DELTA = c mod DELTA"
  by (simp add: grown_capacity_def)

lemma gc_mono: "a \<le> b \<Longrightarrow> grown_capacity c a \<le> grown_capacity c b"
proof (cases "c < a")
  case False
  then show ?thesis using gc_ge(2) [of c b] by (simp add: gc_le)
next
  case True
  assume "a \<le> b"
  then have "(a - c + DELTA - 1) div DELTA \<le> (b - c + DELTA - 1) div DELTA"
    by (intro zdiv_mono1 DELTA_pos) simp
  with True \<open>a \<le> b\<close> DELTA_pos show ?thesis
    by (simp add: grown_capacity_def mult_left_mono)
qed

lemma gc_multiple: "\<exists>j. grown_capacity c need = c + DELTA * j"
proof (cases "need \<le> c")
  case True
  then have "grown_capacity c need = c + DELTA * 0" by (simp add: gc_le)
  then show ?thesis ..
next
  case False
  then have "grown_capacity c need = c + DELTA * ((need - c + DELTA - 1) div DELTA)"
    by (simp add: grown_capacity_def)
  then show ?thesis ..
qed

lemma gc_gc: "a \<le> b \<Longrightarrow> grown_capacity (grown_capacity c a) b = grown_capacity c b"
proof (cases "c < a")
  case False
  then show ?thesis by (simp add: gc_le)
next
  case True
  assume ab: "a \<le> b"
  let ?v = "grown_capacity c a"
  obtain qa where v: "?v = c + DELTA * qa" using gc_multiple by blast
  note vb = gc_bounds [OF True]
  show ?thesis
  proof (cases "b \<le> ?v")
    case le: True
    have "grown_capacity c b = c + DELTA * qa"
    proof (rule gc_unique)
      show "c < b" using True ab by simp
      show "b \<le> c + DELTA * qa" using le v by simp
      show "c + DELTA * qa < b + DELTA" using vb ab v by linarith
    qed
    with le v show ?thesis by (simp add: gc_le)
  next
    case False
    then have lt: "?v < b" by simp
    obtain q where g: "grown_capacity ?v b = ?v + DELTA * q" using gc_multiple by blast
    note bb = gc_bounds [OF lt]
    have e: "c + DELTA * (qa + q) = grown_capacity ?v b"
      unfolding g by (subst v) (simp add: algebra_simps)
    have "grown_capacity c b = c + DELTA * (qa + q)"
    proof (rule gc_unique)
      show "c < b" using True ab by simp
      show "b \<le> c + DELTA * (qa + q)" unfolding e by (rule bb)
      show "c + DELTA * (qa + q) < b + DELTA" unfolding e by (rule bb)
    qed
    with e show ?thesis by simp
  qed
qed

lemma two_gib: "MAXSMALLINT + 1 = DELTA * 2048"
  by (simp add: MAXSMALLINT_def DELTA_def)

lemma ok_bound:
  assumes "c mod DELTA = 0" "c \<le> MAXSMALLINT"
  shows "c + DELTA \<le> MAXSMALLINT + 1"
proof -
  from assms(1) obtain j where j: "c = DELTA * j" by (auto simp: mod_eq_0_iff_dvd)
  with assms(2) have "DELTA * j < DELTA * 2048" unfolding two_gib [symmetric] by simp
  with DELTA_pos have "j < 2048" by (simp add: mult_less_cancel_left_pos)
  then have "j + 1 \<le> 2048" by simp
  with DELTA_pos have "DELTA * (j + 1) \<le> DELTA * 2048" by (intro mult_left_mono) simp_all
  then have "DELTA * j + DELTA \<le> MAXSMALLINT + 1"
    unfolding two_gib by (simp add: algebra_simps)
  with j show ?thesis by simp
qed

subsection \<open>The formatting loop\<close>

lemma slot_line_make_room [simp]: "slot_line P (make_room offset s) mybuf m = slot_line P s mybuf m"
  by (simp add: slot_line_def make_room_def cong: option.case_cong)

lemma slot_line_sbuf [simp]: "slot_line P (s\<lparr>sbuf := b\<rparr>) mybuf m = slot_line P s mybuf m"
  by (simp add: slot_line_def cong: option.case_cong)

lemma slot_line_maxsbuf [simp]: "slot_line P (s\<lparr>maxsbuf := c\<rparr>) mybuf m = slot_line P s mybuf m"
  by (simp add: slot_line_def cong: option.case_cong)

lemma slot_line_fp [simp]: "slot_line P (s\<lparr>fp := c\<rparr>) mybuf m = slot_line P s mybuf m"
  by (simp add: slot_line_def cong: option.case_cong)

lemma convert_loop_stop: "\<not> i < n \<Longrightarrow> convert_loop P n mybuf i m offset s = (Inr offset, s)"
  by (subst convert_loop.simps) simp

lemma convert_loop_overflow:
  "i < n \<Longrightarrow> offset + ONELINE > MAXSMALLINT \<Longrightarrow>
   convert_loop P n mybuf i m offset s = (Inl SignedOverflow, s)"
  by (subst convert_loop.simps) simp

lemma convert_loop_sentinel:
  "i < n \<Longrightarrow> offset + ONELINE \<le> MAXSMALLINT \<Longrightarrow> offset + ONELINE > maxsbuf s \<Longrightarrow>
   maxsbuf s + DELTA > MAXSMALLINT \<Longrightarrow>
   convert_loop P n mybuf i m offset s = (Inr (- 1), s)"
  by (subst convert_loop.simps) simp

lemma convert_loop_unformatted:
  "i < n \<Longrightarrow> goes_on offset s \<Longrightarrow> slot_line P s mybuf m = None \<Longrightarrow>
   convert_loop P n mybuf i m offset s = (Inl NullFormat, make_room offset s)
   \<or> convert_loop P n mybuf i m offset s = (Inl BadTypeIndex, make_room offset s)"
  by (subst (1 2) convert_loop.simps)
     (auto simp: goes_on_def slot_line_def make_room_def Let_def split: option.splits)

lemma convert_loop_overrun:
  "i < n \<Longrightarrow> goes_on offset s \<Longrightarrow> slot_line P s mybuf m = Some line \<Longrightarrow>
   offset + int (length line) + 1 > maxsbuf (make_room offset s) \<Longrightarrow>
   convert_loop P n mybuf i m offset s = (Inl BufferOverrun, make_room offset s)"
  by (subst convert_loop.simps)
     (auto simp: goes_on_def slot_line_def make_room_def Let_def split: option.splits)

lemma convert_loop_step:
  "i < n \<Longrightarrow> goes_on offset s \<Longrightarrow> slot_line P s mybuf m = Some line \<Longrightarrow>
   offset + int (length line) + 1 \<le> maxsbuf (make_room offset s) \<Longrightarrow>
   convert_loop P n mybuf i m offset s =
     convert_loop P n mybuf (i + 1) (m + size_one s) (offset + int (length line))
       ((make_room offset s)\<lparr>sbuf := poke (sbuf s) (nat offset) (line @ [NUL])\<rparr>)"
  by (subst convert_loop.simps)
     (auto simp: goes_on_def slot_line_def make_room_def Let_def split: option.splits)

lemma make_room_frame: "make_room offset s = s\<lparr>maxsbuf := maxsbuf (make_room offset s)\<rparr>"
  by (simp add: make_room_def)

lemma maxsbuf_make_room:
  "maxsbuf (make_room offset s) = (if offset + ONELINE > maxsbuf s then maxsbuf s + DELTA else maxsbuf s)"
  by (simp add: make_room_def)

lemma size_one_make_room [simp]: "size_one (make_room offset s) = size_one s"
  by (simp add: make_room_def)

lemma sbuf_make_room [simp]: "sbuf (make_room offset s) = sbuf s"
  by (simp add: make_room_def)

lemma poke_below: "j < off \<Longrightarrow> poke b off cs j = b j"
  by (simp add: poke_def)

lemma poke_at: "j < length cs \<Longrightarrow> poke b off cs (off + j) = cs ! j"
  by (simp add: poke_def)

lemma convert_loop_cases:
  assumes "convert_loop P n mybuf i m offset s = (r, s')"
  obtains
    (stop) "\<not> i < n" "r = Inr offset" "s' = s"
  | (overflow) "i < n" "offset + ONELINE > MAXSMALLINT" "r = Inl SignedOverflow" "s' = s"
  | (sentinel) "i < n" "offset + ONELINE \<le> MAXSMALLINT" "offset + ONELINE > maxsbuf s"
      "maxsbuf s + DELTA > MAXSMALLINT" "r = Inr (- 1)" "s' = s"
  | (unformatted) "i < n" "goes_on offset s" "slot_line P s mybuf m = None"
      "r = Inl NullFormat \<or> r = Inl BadTypeIndex" "s' = make_room offset s"
  | (overrun) line where "i < n" "goes_on offset s" "slot_line P s mybuf m = Some line"
      "offset + int (length line) + 1 > maxsbuf (make_room offset s)"
      "r = Inl BufferOverrun" "s' = make_room offset s"
  | (step) line where "i < n" "goes_on offset s" "slot_line P s mybuf m = Some line"
      "offset + int (length line) + 1 \<le> maxsbuf (make_room offset s)"
      "convert_loop P n mybuf (i + 1) (m + size_one s) (offset + int (length line))
         ((make_room offset s)\<lparr>sbuf := poke (sbuf s) (nat offset) (line @ [NUL])\<rparr>) = (r, s')"
proof (cases "i < n")
  case False
  have "(r, s') = (Inr offset, s)"
    unfolding assms [symmetric] by (rule convert_loop_stop [OF False])
  then have "r = Inr offset" "s' = s" by simp_all
  with False show ?thesis by (rule stop)
next
  case lt: True
  show ?thesis
  proof (cases "goes_on offset s")
    case False
    show ?thesis
    proof (cases "offset + ONELINE > MAXSMALLINT")
      case True
      have "(r, s') = (Inl SignedOverflow, s)"
        unfolding assms [symmetric] by (rule convert_loop_overflow [OF lt True])
      then have "r = Inl SignedOverflow" "s' = s" by simp_all
      with lt True show ?thesis by (rule overflow)
    next
      case no: False
      then have le: "offset + ONELINE \<le> MAXSMALLINT" by simp
      with False have gt: "offset + ONELINE > maxsbuf s" "maxsbuf s + DELTA > MAXSMALLINT"
        by (simp_all add: goes_on_def)
      have "(r, s') = (Inr (- 1), s)"
        unfolding assms [symmetric] by (rule convert_loop_sentinel [OF lt le gt])
      then have "r = Inr (- 1)" "s' = s" by simp_all
      with lt le gt show ?thesis by (rule sentinel)
    qed
  next
    case go: True
    show ?thesis
    proof (cases "slot_line P s mybuf m")
      case None
      from convert_loop_unformatted [OF lt go None]
      have "(r, s') = (Inl NullFormat, make_room offset s)
          \<or> (r, s') = (Inl BadTypeIndex, make_room offset s)"
        unfolding assms .
      then have "r = Inl NullFormat \<or> r = Inl BadTypeIndex" "s' = make_room offset s"
        by auto
      with lt go None show ?thesis by (rule unformatted)
    next
      case (Some line)
      show ?thesis
      proof (cases "offset + int (length line) + 1 > maxsbuf (make_room offset s)")
        case True
        have "(r, s') = (Inl BufferOverrun, make_room offset s)"
          unfolding assms [symmetric] by (rule convert_loop_overrun [OF lt go Some True])
        then have "r = Inl BufferOverrun" "s' = make_room offset s" by simp_all
        with lt go Some True show ?thesis by (rule overrun)
      next
        case False
        then have le: "offset + int (length line) + 1 \<le> maxsbuf (make_room offset s)" by simp
        have "convert_loop P n mybuf (i + 1) (m + size_one s) (offset + int (length line))
            ((make_room offset s)\<lparr>sbuf := poke (sbuf s) (nat offset) (line @ [NUL])\<rparr>) = (r, s')"
          unfolding convert_loop_step [OF lt go Some le, symmetric] by (rule assms)
        with lt go Some le show ?thesis by (rule step)
      qed
    qed
  qed
qed

lemma make_room_post:
  "make_room offset s = s\<lparr>maxsbuf := maxsbuf (make_room offset s), sbuf := sbuf (make_room offset s)\<rparr>"
  "maxsbuf s \<le> maxsbuf (make_room offset s)"
  "(maxsbuf (make_room offset s) - maxsbuf s) mod DELTA = 0"
  "goes_on offset s \<Longrightarrow> maxsbuf s \<le> MAXSMALLINT \<Longrightarrow> maxsbuf (make_room offset s) \<le> MAXSMALLINT"
  by (auto simp: make_room_def goes_on_def DELTA_def)

lemma convert_loop_post:
  assumes "convert_loop P n mybuf i m offset s = (r, s')" "0 \<le> offset"
  shows "s' = s\<lparr>maxsbuf := maxsbuf s', sbuf := sbuf s'\<rparr>
    \<and> maxsbuf s \<le> maxsbuf s'
    \<and> (maxsbuf s' - maxsbuf s) mod DELTA = 0
    \<and> (maxsbuf s \<le> MAXSMALLINT \<longrightarrow> maxsbuf s' \<le> MAXSMALLINT)
    \<and> (\<forall>j. j < nat offset \<longrightarrow> sbuf s' j = sbuf s j)"
  using assms
proof (induction "nat (n - i)" arbitrary: i m offset s)
  case 0
  then have "\<not> i < n" by simp
  have "(r, s') = (Inr offset, s)"
    unfolding 0(2) [symmetric] by (rule convert_loop_stop) fact
  then show ?case by simp
next
  case (Suc d)
  from Suc.prems(1) show ?case
  proof (cases rule: convert_loop_cases)
    case stop
    then show ?thesis by simp
  next
    case overflow
    then show ?thesis by simp
  next
    case sentinel
    then show ?thesis by simp
  next
    case unformatted
    with make_room_post [where offset = offset and s = s] show ?thesis by simp
  next
    case (overrun line)
    with make_room_post [where offset = offset and s = s] show ?thesis by simp
  next
    case (step line)
    let ?s1 = "make_room offset s"
    let ?s2 = "?s1\<lparr>sbuf := poke (sbuf s) (nat offset) (line @ [NUL])\<rparr>"
    have d: "d = nat (n - (i + 1))" using Suc(2) by linarith
    have o: "0 \<le> offset + int (length line)" using Suc.prems(2) by simp
    note ih = Suc(1) [OF d step(5) o]
    have m2: "maxsbuf ?s2 = maxsbuf ?s1" by simp
    have "s' = ?s2\<lparr>maxsbuf := maxsbuf s', sbuf := sbuf s'\<rparr>"
      using ih by blast
    also have "\<dots> = s\<lparr>maxsbuf := maxsbuf s', sbuf := sbuf s'\<rparr>"
      by (subst make_room_post(1)) simp
    finally have 1: "s' = s\<lparr>maxsbuf := maxsbuf s', sbuf := sbuf s'\<rparr>" .
    have 2: "maxsbuf s \<le> maxsbuf s'"
      using ih make_room_post(2) [where offset = offset and s = s] unfolding m2 by linarith
    have "(maxsbuf s' - maxsbuf ?s1) mod DELTA = 0" using ih unfolding m2 by blast
    with make_room_post(3) [where offset = offset and s = s]
    have "((maxsbuf s' - maxsbuf ?s1) + (maxsbuf ?s1 - maxsbuf s)) mod DELTA = 0"
      by (simp only: mod_add_eq [symmetric, of "maxsbuf s' - maxsbuf ?s1"]) simp
    then have 3: "(maxsbuf s' - maxsbuf s) mod DELTA = 0" by simp
    have 4: "maxsbuf s' \<le> MAXSMALLINT" if "maxsbuf s \<le> MAXSMALLINT"
      using ih make_room_post(4) [OF step(2) that] unfolding m2 by blast
    have 5: "sbuf s' j = sbuf s j" if "j < nat offset" for j
    proof -
      from that o have "j < nat (offset + int (length line))" by linarith
      with ih have "sbuf s' j = sbuf ?s2 j" by blast
      with that show ?thesis by (simp add: poke_below)
    qed
    from 1 2 3 4 5 show ?thesis by blast
  qed
qed

lemma record_line_frame [simp]:
  "record_line P (s\<lparr>maxsbuf := c, sbuf := b\<rparr>) mybuf k = record_line P s mybuf k"
  by (simp add: record_line_def)

lemma record_line_fp [simp]:
  "record_line P (s\<lparr>fp := c\<rparr>) mybuf k = record_line P s mybuf k"
  by (simp add: record_line_def)

lemma record_text_frame [simp]:
  "record_text P (s\<lparr>maxsbuf := c, sbuf := b\<rparr>) mybuf = record_text P s mybuf"
  by (rule ext) (simp add: record_text_def)

lemma span_text_frame [simp]:
  "span_text P (s\<lparr>maxsbuf := c, sbuf := b\<rparr>) mybuf i k = span_text P s mybuf i k"
  by (simp add: span_text_def)

lemma span_text_empty: "\<not> i < n \<Longrightarrow> span_text P s mybuf i n = []"
  by (simp add: span_text_def)

lemma span_text_rec:
  "i < n \<Longrightarrow> span_text P s mybuf i n = record_text P s mybuf i @ span_text P s mybuf (i + 1) n"
  by (simp add: span_text_def upto_rec1)

lemma span_text_snoc:
  "i \<le> k \<Longrightarrow> span_text P s mybuf i (k + 1) = span_text P s mybuf i k @ record_text P s mybuf k"
  by (simp add: span_text_def upto_rec2)

lemma map_poke_line:
  "map (poke b off (line @ [c])) [off..<off + length line] = line"
  by (rule nth_equalityI) (simp_all add: poke_def nth_append)

lemma upt_split: "a \<le> b \<Longrightarrow> b \<le> c \<Longrightarrow> [a..<c] = [a..<b] @ [b..<c]"
  using upt_add_eq_append [of a b "c - b"] by simp

lemma map_upt_cong: "(\<And>j. a \<le> j \<Longrightarrow> j < b \<Longrightarrow> f j = g j) \<Longrightarrow> map f [a..<b] = map g [a..<b]"
  by simp

lemma convert_loop_success:
  assumes "convert_loop P n mybuf i m offset s = (Inr off, s')" "off \<noteq> - 1" "0 \<le> offset"
    "m = i * size_one s"
  shows "off = offset + int (length (span_text P s mybuf i n))
    \<and> map (sbuf s') [nat offset..<nat off] = span_text P s mybuf i n
    \<and> (\<forall>k. i \<le> k \<and> k < n \<longrightarrow> record_line P s mybuf k \<noteq> None)
    \<and> (offset \<le> maxsbuf s \<longrightarrow> off \<le> maxsbuf s')
    \<and> (offset + 1 \<le> maxsbuf s \<or> i < n \<longrightarrow> off + 1 \<le> maxsbuf s')"
  using assms
proof (induction "nat (n - i)" arbitrary: i m offset s)
  case 0
  then have ni: "\<not> i < n" by simp
  from convert_loop_stop [OF ni, of P mybuf m offset s] "0.prems"(1)
  have "off = offset" "s' = s" by simp_all
  with ni show ?case by (auto simp: span_text_empty)
next
  case (Suc d)
  from Suc.prems(1) show ?case
  proof (cases rule: convert_loop_cases)
    case stop
    then show ?thesis by (auto simp: span_text_empty)
  next
    case overflow
    then show ?thesis by simp
  next
    case sentinel
    with Suc.prems(2) show ?thesis by simp
  next
    case unformatted
    then show ?thesis by auto
  next
    case (overrun line)
    then show ?thesis by simp
  next
    case (step line)
    let ?s1 = "make_room offset s"
    let ?s2 = "?s1\<lparr>sbuf := poke (sbuf s) (nat offset) (line @ [NUL])\<rparr>"
    let ?o2 = "offset + int (length line)"
    have d: "d = nat (n - (i + 1))" using Suc(2) by linarith
    have o: "0 \<le> ?o2" using Suc.prems(3) by simp
    have m: "m + size_one s = (i + 1) * size_one ?s2"
      using Suc.prems(4) by (simp add: algebra_simps)
    note ih = Suc(1) [OF d step(5) Suc.prems(2) o m]
    note post = convert_loop_post [OF step(5) o]
    have s2: "?s2 = s\<lparr>maxsbuf := maxsbuf ?s1, sbuf := poke (sbuf s) (nat offset) (line @ [NUL])\<rparr>"
      by (subst make_room_post(1)) simp
    have rl: "record_line P s mybuf i = Some line"
      using step(3) Suc.prems(4) by (simp add: record_line_def)
    then have rt: "record_text P s mybuf i = line" by (simp add: record_text_def)
    have sp: "span_text P s mybuf i n = line @ span_text P s mybuf (i + 1) n"
      unfolding span_text_rec [OF step(1)] rt ..
    have sp2: "span_text P ?s2 mybuf (i + 1) n = span_text P s mybuf (i + 1) n"
      by (subst s2) simp
    have ih1: "off = ?o2 + int (length (span_text P s mybuf (i + 1) n))"
      using ih unfolding sp2 by blast
    have ih2: "map (sbuf s') [nat ?o2..<nat off] = span_text P s mybuf (i + 1) n"
      using ih unfolding sp2 by blast
    have 1: "off = offset + int (length (span_text P s mybuf i n))"
      using ih1 unfolding sp by simp
    have le: "?o2 \<le> off" using ih1 by simp
    have "map (sbuf s') [nat offset..<nat ?o2] = map (sbuf ?s2) [nat offset..<nat ?o2]"
      using post by (intro map_upt_cong) blast
    also have "\<dots> = line"
      using map_poke_line [of "sbuf s" "nat offset" line NUL] Suc.prems(3)
      by (simp add: nat_add_distrib)
    finally have first: "map (sbuf s') [nat offset..<nat ?o2] = line" .
    have "[nat offset..<nat off] = [nat offset..<nat ?o2] @ [nat ?o2..<nat off]"
      using le o Suc.prems(3) by (intro upt_split) simp_all
    then have 2: "map (sbuf s') [nat offset..<nat off] = span_text P s mybuf i n"
      by (simp only: map_append first ih2 sp)
    have 3: "record_line P s mybuf k \<noteq> None" if "i \<le> k \<and> k < n" for k
    proof (cases "k = i")
      case True
      with rl show ?thesis by simp
    next
      case False
      with that have "i + 1 \<le> k \<and> k < n" by simp
      with ih have "record_line P ?s2 mybuf k \<noteq> None" by blast
      then show ?thesis by (subst (asm) s2) simp
    qed
    have room: "?o2 + 1 \<le> maxsbuf ?s2" using step(4) by simp
    with ih have 4: "off + 1 \<le> maxsbuf s'" by blast
    from 1 2 3 4 show ?thesis by auto
  qed
qed

lemma write_lines_loop_stop: "\<not> i < n \<Longrightarrow> write_lines_loop P n mybuf i m s = (Inr (), s)"
  by (subst write_lines_loop.simps) simp

lemma write_lines_loop_step:
  "i < n \<Longrightarrow> slot_line P s mybuf m = Some line \<Longrightarrow>
   write_lines_loop P n mybuf i m s
     = write_lines_loop P n mybuf (i + 1) (m + size_one s) (s\<lparr>fp := fp s @ line\<rparr>)"
  by (subst write_lines_loop.simps) (auto simp: slot_line_def split: option.splits)

lemma record_text_fp [simp]: "record_text P (s\<lparr>fp := c\<rparr>) mybuf = record_text P s mybuf"
  by (rule ext) (simp add: record_text_def)

lemma span_text_fp [simp]: "span_text P (s\<lparr>fp := c\<rparr>) mybuf i k = span_text P s mybuf i k"
  by (simp add: span_text_def)

lemma write_lines_loop_text:
  assumes "\<forall>k. i \<le> k \<and> k < n \<longrightarrow> record_line P s mybuf k \<noteq> None" "m = i * size_one s"
  shows "write_lines_loop P n mybuf i m s = (Inr (), s\<lparr>fp := fp s @ span_text P s mybuf i n\<rparr>)"
  using assms
proof (induction "nat (n - i)" arbitrary: i m s)
  case 0
  then have "\<not> i < n" by simp
  then show ?case by (simp add: write_lines_loop_stop span_text_empty)
next
  case (Suc d)
  then have lt: "i < n" and d: "d = nat (n - (i + 1))" by linarith+
  from Suc.prems(1) lt obtain line where rl: "record_line P s mybuf i = Some line" by auto
  then have sl: "slot_line P s mybuf m = Some line"
    using Suc.prems(2) by (simp add: record_line_def)
  from rl have rt: "record_text P s mybuf i = line" by (simp add: record_text_def)
  let ?s2 = "s\<lparr>fp := fp s @ line\<rparr>"
  have a: "\<forall>k. i + 1 \<le> k \<and> k < n \<longrightarrow> record_line P ?s2 mybuf k \<noteq> None"
    using Suc.prems(1) by simp
  have m: "m + size_one s = (i + 1) * size_one ?s2"
    using Suc.prems(2) by (simp add: algebra_simps)
  show ?case
    unfolding write_lines_loop_step [OF lt sl] Suc(1) [OF d a m] span_text_rec [OF lt] rt
    by simp
qed

lemma convert_loop_prefix:
  assumes "convert_loop P k mybuf i m offset s = (Inr off, s1)" "off \<noteq> - 1" "0 \<le> offset"
    "i \<le> k" "k \<le> n"
  shows "convert_loop P n mybuf i m offset s
     = convert_loop P n mybuf k (m + (k - i) * size_one s) off s1"
  using assms
proof (induction "nat (k - i)" arbitrary: i m offset s)
  case 0
  then have ik: "i = k" by simp
  then have "\<not> i < k" by simp
  from convert_loop_stop [OF this, of P mybuf m offset s] "0.prems"(1)
  have "off = offset" "s1 = s" by simp_all
  with ik show ?case by simp
next
  case (Suc d)
  then have lt: "i < k" and ltn: "i < n" and d: "d = nat (k - (i + 1))" by linarith+
  from Suc.prems(1) show ?case
  proof (cases rule: convert_loop_cases)
    case stop
    with lt show ?thesis by simp
  next
    case overflow
    then show ?thesis by simp
  next
    case sentinel
    with Suc.prems(2) show ?thesis by simp
  next
    case unformatted
    then show ?thesis by auto
  next
    case (overrun line)
    then show ?thesis by simp
  next
    case (step line)
    let ?s2 = "(make_room offset s)\<lparr>sbuf := poke (sbuf s) (nat offset) (line @ [NUL])\<rparr>"
    have o: "0 \<le> offset + int (length line)" using Suc.prems(3) by simp
    have ik: "i + 1 \<le> k" using lt by simp
    note ih = Suc(1) [OF d step(5) Suc.prems(2) o ik Suc.prems(5)]
    have e: "m + size_one s + (k - (i + 1)) * size_one ?s2 = m + (k - i) * size_one s"
      by (simp add: algebra_simps)
    show ?thesis
      unfolding convert_loop_step [OF ltn step(2) step(3) step(4)] ih e ..
  qed
qed

lemma ONELINE_DELTA: "0 < ONELINE" "ONELINE < DELTA"
  by (simp_all add: ONELINE_def DELTA_def)

lemma ok_in_range:
  assumes "maxsbuf_ok s" "offset \<le> maxsbuf s"
  shows "offset + ONELINE \<le> MAXSMALLINT"
  using ok_bound [of "maxsbuf s"] assms ONELINE_DELTA by (simp add: maxsbuf_ok_def)

lemma room_made:
  assumes "offset \<le> maxsbuf s"
  shows "offset + ONELINE \<le> maxsbuf (make_room offset s)"
  using assms ONELINE_DELTA by (simp add: make_room_def)

lemma maxsbuf_make_room_gc:
  assumes "offset \<le> maxsbuf s"
  shows "maxsbuf (make_room offset s) = grown_capacity (maxsbuf s) (offset + ONELINE)"
proof (cases "offset + ONELINE > maxsbuf s")
  case True
  with assms ONELINE_DELTA have "grown_capacity (maxsbuf s) (offset + ONELINE) = maxsbuf s + DELTA"
    by (intro gc_step) simp_all
  with True show ?thesis by (simp add: make_room_def)
next
  case False
  then show ?thesis by (simp add: make_room_def gc_le)
qed

lemma ok_make_room:
  assumes "maxsbuf_ok s" "goes_on offset s"
  shows "maxsbuf_ok (make_room offset s)"
  using assms DELTA_pos by (auto simp: maxsbuf_ok_def make_room_def goes_on_def)

lemma line_fits_frame [simp]:
  "line_fits P (s\<lparr>maxsbuf := c, sbuf := b\<rparr>) mybuf k = line_fits P s mybuf k"
  by (simp add: line_fits_def)

lemma step_state:
  "(make_room offset s)\<lparr>sbuf := b\<rparr> = s\<lparr>maxsbuf := maxsbuf (make_room offset s), sbuf := b\<rparr>"
  by (subst make_room_post(1)) simp

lemma convert_loop_fits:
  assumes "maxsbuf_ok s" "0 \<le> offset" "offset \<le> maxsbuf s" "m = i * size_one s"
    "\<forall>k. i \<le> k \<and> k < n \<longrightarrow> line_fits P s mybuf k"
  shows "\<exists>off s'. convert_loop P n mybuf i m offset s = (Inr off, s')
     \<and> (off = - 1 \<or> (offset \<le> off \<and> off \<le> maxsbuf s'))"
  using assms
proof (induction "nat (n - i)" arbitrary: i m offset s)
  case 0
  then have "\<not> i < n" by simp
  from convert_loop_stop [OF this, of P mybuf m offset s] 0(4) show ?case by simp
next
  case (Suc d)
  then have lt: "i < n" and d: "d = nat (n - (i + 1))" by linarith+
  note range = ok_in_range [OF Suc.prems(1) Suc.prems(3)]
  show ?case
  proof (cases "goes_on offset s")
    case False
    with range have "offset + ONELINE > maxsbuf s" "maxsbuf s + DELTA > MAXSMALLINT"
      by (simp_all add: goes_on_def)
    from convert_loop_sentinel [OF lt range this, of P mybuf m] show ?thesis by simp
  next
    case go: True
    let ?s1 = "make_room offset s"
    from Suc.prems(5) lt have "line_fits P s mybuf i" by simp
    then obtain line where rl: "record_line P s mybuf i = Some line"
      and len: "int (length line) + 1 \<le> ONELINE"
      by (auto simp: line_fits_def split: option.splits)
    from rl have sl: "slot_line P s mybuf m = Some line"
      using Suc.prems(4) by (simp add: record_line_def)
    have fit: "offset + int (length line) + 1 \<le> maxsbuf ?s1"
      using room_made [OF Suc.prems(3)] len by linarith
    let ?s2 = "?s1\<lparr>sbuf := poke (sbuf s) (nat offset) (line @ [NUL])\<rparr>"
    let ?o2 = "offset + int (length line)"
    have ok2: "maxsbuf_ok ?s2"
      using ok_make_room [OF Suc.prems(1) go] by (simp add: maxsbuf_ok_def)
    have o2: "0 \<le> ?o2" "?o2 \<le> maxsbuf ?s2" using Suc.prems(2) fit by simp_all
    have m2: "m + size_one s = (i + 1) * size_one ?s2"
      using Suc.prems(4) by (simp add: algebra_simps)
    have f2: "\<forall>k. i + 1 \<le> k \<and> k < n \<longrightarrow> line_fits P ?s2 mybuf k"
      using Suc.prems(5) unfolding step_state by simp
    from Suc(1) [OF d ok2 o2 m2 f2] obtain off s'
      where r: "convert_loop P n mybuf (i + 1) (m + size_one s) ?o2 ?s2 = (Inr off, s')"
        and b: "off = - 1 \<or> (?o2 \<le> off \<and> off \<le> maxsbuf s')"
      by blast
    from b have "off = - 1 \<or> (offset \<le> off \<and> off \<le> maxsbuf s')" by auto
    with r show ?thesis
      unfolding convert_loop_step [OF lt go sl fit] by blast
  qed
qed

lemma span_text_self [simp]: "span_text P s mybuf i i = []"
  by (simp add: span_text_def)

lemma span_text_cons:
  assumes "i < k" "record_line P s mybuf i = Some line"
  shows "span_text P s mybuf i k = line @ span_text P s mybuf (i + 1) k"
  using span_text_rec [OF assms(1), of P s mybuf] assms(2) by (simp add: record_text_def)

lemma convert_loop_closed:
  assumes "maxsbuf_ok s" "0 \<le> offset" "offset \<le> maxsbuf s" "m = i * size_one s"
    and "\<forall>k. i \<le> k \<and> k < n \<longrightarrow>
           (\<exists>line. record_line P s mybuf k = Some line
              \<and> offset + int (length (span_text P s mybuf i k)) + int (length line) + 1
                  \<le> grown_capacity (maxsbuf s)
                      (offset + int (length (span_text P s mybuf i k)) + ONELINE))"
    and "i < n \<longrightarrow>
           grown_capacity (maxsbuf s)
             (offset + int (length (span_text P s mybuf i (n - 1))) + ONELINE) \<le> MAXSMALLINT"
  shows "\<exists>b. convert_loop P n mybuf i m offset s
     = (Inr (offset + int (length (span_text P s mybuf i n))),
        s\<lparr>maxsbuf := (if i < n
                       then grown_capacity (maxsbuf s)
                              (offset + int (length (span_text P s mybuf i (n - 1))) + ONELINE)
                       else maxsbuf s),
          sbuf := b\<rparr>)"
  using assms
proof (induction "nat (n - i)" arbitrary: i m offset s)
  case 0
  then have ni: "\<not> i < n" by simp
  have "convert_loop P n mybuf i m offset s
      = (Inr (offset + int (length (span_text P s mybuf i n))),
         s\<lparr>maxsbuf := (if i < n
                       then grown_capacity (maxsbuf s)
                              (offset + int (length (span_text P s mybuf i (n - 1))) + ONELINE)
                       else maxsbuf s),
          sbuf := sbuf s\<rparr>)"
    using ni by (simp add: convert_loop_stop span_text_empty)
  then show ?case by (rule exI [of _ "sbuf s"])
next
  case (Suc d)
  then have lt: "i < n" and d: "d = nat (n - (i + 1))" by linarith+
  let ?c = "maxsbuf s"
  let ?last = "offset + int (length (span_text P s mybuf i (n - 1))) + ONELINE"
  let ?s1 = "make_room offset s"
  from lt have "i \<le> i \<and> i < n" by simp
  with Suc.prems(5) have "\<exists>line. record_line P s mybuf i = Some line
      \<and> offset + int (length (span_text P s mybuf i i)) + int (length line) + 1
          \<le> grown_capacity ?c (offset + int (length (span_text P s mybuf i i)) + ONELINE)"
    by blast
  then obtain line where rl: "record_line P s mybuf i = Some line"
    and fit0: "offset + int (length line) + 1 \<le> grown_capacity ?c (offset + ONELINE)"
    by (simp only: span_text_self list.size of_nat_0 add_0_right) blast
  from rl have sl: "slot_line P s mybuf m = Some line"
    using Suc.prems(4) by (simp add: record_line_def)
  have c1: "maxsbuf ?s1 = grown_capacity ?c (offset + ONELINE)"
    by (rule maxsbuf_make_room_gc [OF Suc.prems(3)])
  have first_le: "offset + ONELINE \<le> ?last" by simp
  have ceil: "grown_capacity ?c ?last \<le> MAXSMALLINT" using Suc.prems(6) lt by simp
  have c1_le: "maxsbuf ?s1 \<le> MAXSMALLINT"
    unfolding c1 using gc_mono [OF first_le, of ?c] ceil by linarith
  have go: "goes_on offset s"
  proof (cases "offset + ONELINE > maxsbuf s")
    case True
    then have "maxsbuf ?s1 = maxsbuf s + DELTA" by (simp add: make_room_def)
    with c1_le ok_in_range [OF Suc.prems(1) Suc.prems(3)] show ?thesis
      by (simp add: goes_on_def)
  next
    case False
    with ok_in_range [OF Suc.prems(1) Suc.prems(3)] show ?thesis
      by (simp add: goes_on_def)
  qed
  have fit: "offset + int (length line) + 1 \<le> maxsbuf ?s1" unfolding c1 by (rule fit0)
  let ?s2 = "?s1\<lparr>sbuf := poke (sbuf s) (nat offset) (line @ [NUL])\<rparr>"
  let ?o2 = "offset + int (length line)"
  have ss: "?s2 = s\<lparr>maxsbuf := maxsbuf ?s1, sbuf := poke (sbuf s) (nat offset) (line @ [NUL])\<rparr>"
    by (rule step_state)
  have ok2: "maxsbuf_ok ?s2"
    using ok_make_room [OF Suc.prems(1) go] by (simp add: maxsbuf_ok_def)
  have o2: "0 \<le> ?o2" "?o2 \<le> maxsbuf ?s2" using Suc.prems(2) fit by simp_all
  have m2: "m + size_one s = (i + 1) * size_one ?s2"
    using Suc.prems(4) by (simp add: algebra_simps)
  have span: "offset + int (length (span_text P s mybuf i k))
      = ?o2 + int (length (span_text P ?s2 mybuf (i + 1) k))" if "i + 1 \<le> k" for k
  proof -
    from that have "i < k" by simp
    from span_text_cons [OF this rl] show ?thesis unfolding ss by simp
  qed
  have gc2: "grown_capacity (maxsbuf ?s2) (x + ONELINE) = grown_capacity ?c (x + ONELINE)"
    if "offset \<le> x" for x
  proof -
    from that have "offset + ONELINE \<le> x + ONELINE" by simp
    from gc_gc [OF this, of ?c] show ?thesis by (simp add: c1)
  qed
  have lines2: "\<forall>k. i + 1 \<le> k \<and> k < n \<longrightarrow>
           (\<exists>line. record_line P ?s2 mybuf k = Some line
              \<and> ?o2 + int (length (span_text P ?s2 mybuf (i + 1) k)) + int (length line) + 1
                  \<le> grown_capacity (maxsbuf ?s2)
                      (?o2 + int (length (span_text P ?s2 mybuf (i + 1) k)) + ONELINE))"
  proof (intro allI impI)
    fix k assume k: "i + 1 \<le> k \<and> k < n"
    then have "i \<le> k \<and> k < n" by simp
    with Suc.prems(5) obtain l where l: "record_line P s mybuf k = Some l"
      "offset + int (length (span_text P s mybuf i k)) + int (length l) + 1
         \<le> grown_capacity ?c (offset + int (length (span_text P s mybuf i k)) + ONELINE)"
      by blast
    have r2: "record_line P ?s2 mybuf k = Some l" unfolding ss using l(1) by simp
    from k have sp: "offset + int (length (span_text P s mybuf i k))
        = ?o2 + int (length (span_text P ?s2 mybuf (i + 1) k))"
      by (intro span) simp
    have "offset \<le> ?o2 + int (length (span_text P ?s2 mybuf (i + 1) k))" using Suc.prems(2) by simp
    note g = gc2 [OF this]
    from l(2) have "?o2 + int (length (span_text P ?s2 mybuf (i + 1) k)) + int (length l) + 1
        \<le> grown_capacity (maxsbuf ?s2)
            (?o2 + int (length (span_text P ?s2 mybuf (i + 1) k)) + ONELINE)"
      unfolding sp g .
    with r2 show "\<exists>line. record_line P ?s2 mybuf k = Some line
              \<and> ?o2 + int (length (span_text P ?s2 mybuf (i + 1) k)) + int (length line) + 1
                  \<le> grown_capacity (maxsbuf ?s2)
                      (?o2 + int (length (span_text P ?s2 mybuf (i + 1) k)) + ONELINE)"
      by blast
  qed
  have last2: "grown_capacity (maxsbuf ?s2)
      (?o2 + int (length (span_text P ?s2 mybuf (i + 1) (n - 1))) + ONELINE)
      = grown_capacity ?c ?last" if "i + 1 < n"
  proof -
    from that have "i + 1 \<le> n - 1" by simp
    note sp = span [OF this]
    have "offset \<le> ?o2 + int (length (span_text P ?s2 mybuf (i + 1) (n - 1)))" by simp
    from gc2 [OF this] show ?thesis unfolding sp .
  qed
  have ceil2: "i + 1 < n \<longrightarrow> grown_capacity (maxsbuf ?s2)
      (?o2 + int (length (span_text P ?s2 mybuf (i + 1) (n - 1))) + ONELINE) \<le> MAXSMALLINT"
    using last2 ceil by simp
  from Suc(1) [OF d ok2 o2 m2 lines2 ceil2] obtain b where
    r: "convert_loop P n mybuf (i + 1) (m + size_one s) ?o2 ?s2
     = (Inr (?o2 + int (length (span_text P ?s2 mybuf (i + 1) n))),
        ?s2\<lparr>maxsbuf := (if i + 1 < n
                       then grown_capacity (maxsbuf ?s2)
                              (?o2 + int (length (span_text P ?s2 mybuf (i + 1) (n - 1))) + ONELINE)
                       else maxsbuf ?s2),
          sbuf := b\<rparr>)"
    by blast
  have tot: "?o2 + int (length (span_text P ?s2 mybuf (i + 1) n))
      = offset + int (length (span_text P s mybuf i n))"
    using span [of n] lt by simp
  have cap: "(if i + 1 < n
                       then grown_capacity (maxsbuf ?s2)
                              (?o2 + int (length (span_text P ?s2 mybuf (i + 1) (n - 1))) + ONELINE)
                       else maxsbuf ?s2) = grown_capacity ?c ?last"
  proof (cases "i + 1 < n")
    case True
    with last2 show ?thesis by simp
  next
    case False
    with lt have "n - 1 = i" by simp
    then show ?thesis using False c1 by simp
  qed
  have "convert_loop P n mybuf i m offset s
     = (Inr (offset + int (length (span_text P s mybuf i n))),
        ?s2\<lparr>maxsbuf := grown_capacity ?c ?last, sbuf := b\<rparr>)"
    unfolding convert_loop_step [OF lt go sl fit] r tot cap ..
  also have "?s2\<lparr>maxsbuf := grown_capacity ?c ?last, sbuf := b\<rparr>
      = s\<lparr>maxsbuf := grown_capacity ?c ?last, sbuf := b\<rparr>"
    unfolding ss by simp
  finally show ?case using lt by auto
qed

subsection \<open>\<^verbatim>\<open>convert_string\<close> and \<^verbatim>\<open>write_lines\<close> on a batch\<close>

lemma convert_string_success:
  assumes "convert_string P n mybuf s = (Inr off, s')" "off \<noteq> - 1"
  shows "off = int (length (batch_text P s mybuf n))"
    and "bytes_below (sbuf s') off = batch_text P s mybuf n"
    and "\<forall>k. 0 \<le> k \<and> k < n \<longrightarrow> record_line P s mybuf k \<noteq> None"
    and "s' = s\<lparr>maxsbuf := maxsbuf s', sbuf := sbuf s'\<rparr>"
    and "0 \<le> maxsbuf s \<Longrightarrow> off \<le> maxsbuf s'"
    and "maxsbuf_ok s \<Longrightarrow> maxsbuf_ok s'"
proof -
  have z: "(0::int) \<le> 0" "(0::int) = 0 * size_one s" by simp_all
  note a = assms(1) [unfolded convert_string_def]
  note suc = convert_loop_success [OF a assms(2) z]
  note post = convert_loop_post [OF a z(1)]
  from suc show "off = int (length (batch_text P s mybuf n))"
    by (simp add: batch_text_def)
  from suc have "map (sbuf s') [nat 0..<nat off] = span_text P s mybuf 0 n" by blast
  then show "bytes_below (sbuf s') off = batch_text P s mybuf n"
    by (simp add: batch_text_def bytes_below_def)
  from suc show "\<forall>k. 0 \<le> k \<and> k < n \<longrightarrow> record_line P s mybuf k \<noteq> None" by blast
  from post show "s' = s\<lparr>maxsbuf := maxsbuf s', sbuf := sbuf s'\<rparr>" by blast
  from suc show "off \<le> maxsbuf s'" if "0 \<le> maxsbuf s" using that by blast
  show "maxsbuf_ok s'" if "maxsbuf_ok s"
  proof -
    from post that have "0 \<le> maxsbuf s'" "maxsbuf s' \<le> MAXSMALLINT"
      by (auto simp: maxsbuf_ok_def)
    moreover from post have "(maxsbuf s' - maxsbuf s) mod DELTA = 0" by blast
    with that have "maxsbuf s' mod DELTA = 0"
      by (metis maxsbuf_ok_def diff_add_cancel mod_add_eq add.right_neutral mod_0)
    ultimately show ?thesis by (simp add: maxsbuf_ok_def)
  qed
qed

text \<open>
  The sizes that \<open>maxsbuf_ok\<close> admits are all that occur: the size is 0 when the
  base class has built the object, and every call of \<^verbatim>\<open>convert_string\<close>, however
  it ends, leaves one of them.
\<close>

lemma convert_string_keeps_ok:
  assumes "maxsbuf_ok s"
  shows "maxsbuf_ok (snd (convert_string P n mybuf s))"
proof -
  obtain r s' where r: "convert_loop P n mybuf 0 0 0 s = (r, s')" by (cases "convert_loop P n mybuf 0 0 0 s")
  have z: "(0::int) \<le> 0" by simp
  note post = convert_loop_post [OF r z]
  from post assms have "0 \<le> maxsbuf s'" "maxsbuf s' \<le> MAXSMALLINT"
    by (auto simp: maxsbuf_ok_def)
  moreover from post have "(maxsbuf s' - maxsbuf s) mod DELTA = 0" by blast
  with assms have "maxsbuf s' mod DELTA = 0"
    by (metis maxsbuf_ok_def diff_add_cancel mod_add_eq add.right_neutral mod_0)
  ultimately show ?thesis by (simp add: maxsbuf_ok_def convert_string_def r)
qed

lemma base_dump_ok: "maxsbuf_ok base_dump"
  by (simp add: maxsbuf_ok_def base_dump_def MAXSMALLINT_def)

lemma write_lines_text:
  assumes "\<forall>k. 0 \<le> k \<and> k < n \<longrightarrow> record_line P s mybuf k \<noteq> None"
  shows "write_lines P n mybuf s = (Inr (), s\<lparr>fp := fp s @ batch_text P s mybuf n\<rparr>)"
  unfolding write_lines_def batch_text_def by (rule write_lines_loop_text [OF assms]) simp

lemma span_text_uniform:
  assumes "\<forall>k. i \<le> k \<and> k < n \<longrightarrow> record_line P s mybuf k = Some ln" "i \<le> n"
  shows "int (length (span_text P s mybuf i n)) = int (length ln) * (n - i)"
  using assms
proof (induction "nat (n - i)" arbitrary: i)
  case 0
  then have "i = n" by simp
  then show ?case by simp
next
  case (Suc d)
  then have lt: "i < n" and d: "d = nat (n - (i + 1))" by linarith+
  from Suc.prems(1) lt have rl: "record_line P s mybuf i = Some ln" by simp
  have a: "\<forall>k. i + 1 \<le> k \<and> k < n \<longrightarrow> record_line P s mybuf k = Some ln"
    using Suc.prems(1) by simp
  have "i + 1 \<le> n" using lt by simp
  from Suc(1) [OF d a this] show ?case
    unfolding span_text_cons [OF lt rl] by (simp add: algebra_simps)
qed

text \<open>
  A batch of equal lines in a buffer that never has to grow beyond \<open>cap\<close>: the loop
  formats all \<open>n\<close> records when each of them, with its NUL, ends within the size
  in force.
\<close>

lemma convert_string_uniform:
  assumes ok: "maxsbuf_ok s"
    and lines: "\<forall>k. 0 \<le> k \<and> k < n \<longrightarrow> record_line P s mybuf k = Some ln"
    and n: "0 < n"
    and cap: "grown_capacity (maxsbuf s) (int (length ln) * (n - 1) + ONELINE) = cap"
      "cap \<le> MAXSMALLINT"
    and fit: "\<forall>k. 0 \<le> k \<and> k < n \<longrightarrow>
        int (length ln) * k + int (length ln) + 1
          \<le> grown_capacity (maxsbuf s) (int (length ln) * k + ONELINE)"
  shows "\<exists>b. convert_string P n mybuf s
     = (Inr (int (length ln) * n), s\<lparr>maxsbuf := cap, sbuf := b\<rparr>)"
proof -
  have len: "int (length (span_text P s mybuf 0 k)) = int (length ln) * k" if "0 \<le> k" "k \<le> n" for k
  proof -
    from that lines have "\<forall>j. 0 \<le> j \<and> j < k \<longrightarrow> record_line P s mybuf j = Some ln" by simp
    from span_text_uniform [OF this that(1)] show ?thesis by simp
  qed
  have z: "(0::int) \<le> 0" "0 \<le> maxsbuf s" "(0::int) = 0 * size_one s"
    using ok by (simp_all add: maxsbuf_ok_def)
  have l: "\<forall>k. 0 \<le> k \<and> k < n \<longrightarrow>
           (\<exists>line. record_line P s mybuf k = Some line
              \<and> 0 + int (length (span_text P s mybuf 0 k)) + int (length line) + 1
                  \<le> grown_capacity (maxsbuf s)
                      (0 + int (length (span_text P s mybuf 0 k)) + ONELINE))"
  proof (intro allI impI)
    fix k assume k: "0 \<le> k \<and> k < n"
    then have "int (length (span_text P s mybuf 0 k)) = int (length ln) * k" by (intro len) simp_all
    with lines fit k show "\<exists>line. record_line P s mybuf k = Some line
              \<and> 0 + int (length (span_text P s mybuf 0 k)) + int (length line) + 1
                  \<le> grown_capacity (maxsbuf s)
                      (0 + int (length (span_text P s mybuf 0 k)) + ONELINE)"
      by simp
  qed
  have last: "int (length (span_text P s mybuf 0 (n - 1))) = int (length ln) * (n - 1)"
    using n by (intro len) simp_all
  have c: "0 < n \<longrightarrow>
           grown_capacity (maxsbuf s)
             (0 + int (length (span_text P s mybuf 0 (n - 1))) + ONELINE) \<le> MAXSMALLINT"
    unfolding last using cap by simp
  have tot: "int (length (span_text P s mybuf 0 n)) = int (length ln) * n"
    using n by (intro len) simp_all
  from convert_loop_closed [OF ok z l c] show ?thesis
    unfolding convert_string_def last tot using n cap(1) by simp
qed

lemma convert_string_at:
  assumes "convert_string P k mybuf s = (Inr off, s1)" "off \<noteq> - 1" "0 \<le> k" "k \<le> n"
  shows "convert_string P n mybuf s = convert_loop P n mybuf k (k * size_one s) off s1"
proof -
  have z: "(0::int) \<le> 0" by simp
  from convert_loop_prefix [OF assms(1) [unfolded convert_string_def] assms(2) z assms(3,4)]
  show ?thesis by (simp add: convert_string_def)
qed

lemma convert_string_sentinel:
  assumes "maxsbuf_ok s" "convert_string P k mybuf s = (Inr off, s1)" "off \<noteq> - 1"
    "0 \<le> k" "k < n" "off + ONELINE > maxsbuf s1" "maxsbuf s1 + DELTA > MAXSMALLINT"
  shows "convert_string P n mybuf s = (Inr (- 1), s1)"
proof -
  note suc = convert_string_success [OF assms(2,3)]
  from assms(1) have "0 \<le> maxsbuf s" by (simp add: maxsbuf_ok_def)
  then have "off \<le> maxsbuf s1" by (rule suc(5))
  from ok_in_range [OF suc(6) [OF assms(1)] this]
  have r: "off + ONELINE \<le> MAXSMALLINT" .
  from assms(5) have "k \<le> n" by simp
  from convert_string_at [OF assms(2,3,4) this] show ?thesis
    by (simp only: convert_loop_sentinel [OF assms(5) r assms(6,7)])
qed

lemma convert_string_overrun:
  assumes "maxsbuf_ok s" "convert_string P k mybuf s = (Inr off, s1)" "off \<noteq> - 1"
    "0 \<le> k" "k < n" "record_line P s mybuf k = Some line"
    "off + ONELINE \<le> maxsbuf s1" "off + int (length line) + 1 > maxsbuf s1"
  shows "convert_string P n mybuf s = (Inl BufferOverrun, s1)"
proof -
  note suc = convert_string_success [OF assms(2,3)]
  from assms(1) have "0 \<le> maxsbuf s" by (simp add: maxsbuf_ok_def)
  then have "off \<le> maxsbuf s1" by (rule suc(5))
  from ok_in_range [OF suc(6) [OF assms(1)] this]
  have r: "off + ONELINE \<le> MAXSMALLINT" .
  with assms(7) have go: "goes_on off s1" by (simp add: goes_on_def)
  from assms(7) have mr: "make_room off s1 = s1" by (simp add: make_room_def)
  have "record_line P s1 mybuf k = Some line"
    by (subst suc(4)) (simp add: assms(6))
  moreover have "size_one s1 = size_one s" by (subst suc(4)) simp
  ultimately have sl: "slot_line P s1 mybuf (k * size_one s) = Some line"
    by (simp add: record_line_def)
  from assms(5) have "k \<le> n" by simp
  from convert_string_at [OF assms(2,3,4) this]
    convert_loop_overrun [OF assms(5) go sl, unfolded mr, OF assms(8)]
  show ?thesis by simp
qed

subsection \<open>The example objects\<close>

lemma labelled_dump_eq:
  "labelled_dump w = example_dump\<lparr>typenames :=
     Some (copy_typenames [''element'', replicate w (CHR ''X''), ''O''] 1 2 Map.empty)\<rparr>"
  by (simp add: labelled_dump_def modify_param_def example_dump_fields Let_def)

lemma labelled_dump_fields:
  "maxsbuf (labelled_dump w) = 0" "size_one (labelled_dump w) = 5"
  "format (labelled_dump w) = Some (''%s %g %g %g'' @ [newline])"
  "typenames (labelled_dump w)
     = Some (copy_typenames [''element'', replicate w (CHR ''X''), ''O''] 1 2 Map.empty)"
  "fp (labelled_dump w) = []"
  by (simp_all add: labelled_dump_eq example_dump_fields)

lemma uniform_records_at:
  assumes "0 \<le> k"
  shows "uniform_records (nat (k * 5 + 1)) = 1" "uniform_records (nat (k * 5 + 2)) = 0"
    "uniform_records (nat (k * 5 + 3)) = 0" "uniform_records (nat (k * 5 + 4)) = 0"
proof -
  from assms have "nat (k * 5 + 1) = nat k * 5 + 1" "nat (k * 5 + 2) = nat k * 5 + 2"
    "nat (k * 5 + 3) = nat k * 5 + 3" "nat (k * 5 + 4) = nat k * 5 + 4"
    by (simp_all add: nat_add_distrib nat_mult_distrib)
  moreover have "(nat k * 5 + 1) mod 5 = 1" "(nat k * 5 + 2) mod 5 = 2"
    "(nat k * 5 + 3) mod 5 = 3" "(nat k * 5 + 4) mod 5 = 4"
    by presburger+
  ultimately show "uniform_records (nat (k * 5 + 1)) = 1" "uniform_records (nat (k * 5 + 2)) = 0"
    "uniform_records (nat (k * 5 + 3)) = 0" "uniform_records (nat (k * 5 + 4)) = 0"
    unfolding uniform_records_def by simp_all
qed

lemma dec_int_0_1: "dec_int 0 = ''0''" "dec_int 1 = ''1''"
  by (simp_all add: dec_int_def dec_nat.simps digit_char_def)

lemma example_line: "vsprintf int_platform (''%s %g %g %g'' @ [newline]) l 0 0 0 = l @ '' 0 0 0'' @ [newline]"
  by (simp add: int_platform_def dec_int_0_1)

lemma uniform_line_labelled:
  assumes "0 \<le> k"
  shows "record_line int_platform (labelled_dump w) uniform_records k
     = Some (replicate w (CHR ''X'') @ '' 0 0 0'' @ [newline])"
  unfolding record_line_def slot_line_def labelled_dump_fields option.case uniform_records_at [OF assms]
    example_line
  by (simp add: int_platform_def copy_typenames_at)

lemma uniform_line_example:
  assumes "0 \<le> k"
  shows "record_line int_platform example_dump uniform_records k = Some (''1 0 0 0'' @ [newline])"
  unfolding record_line_def slot_line_def example_dump_fields option.case uniform_records_at [OF assms]
    example_line
  by (simp add: int_platform_def default_typenames_at dec_int_0_1)

lemma maxsbuf_ok_fresh: "maxsbuf s = 0 \<Longrightarrow> maxsbuf_ok s"
  by (simp add: maxsbuf_ok_def MAXSMALLINT_def)

lemma first_block:
  assumes "maxsbuf s = 0"
    and lines: "\<forall>k. 0 \<le> k \<and> k < K \<longrightarrow> record_line P s mybuf k = Some ln"
    and K: "0 < K"
    and small: "\<forall>k. 0 \<le> k \<and> k < K \<longrightarrow>
        int (length ln) * k + ONELINE \<le> DELTA \<and> int (length ln) * k + int (length ln) + 1 \<le> DELTA"
  shows "\<exists>b. convert_string P K mybuf s
     = (Inr (int (length ln) * K), s\<lparr>maxsbuf := DELTA, sbuf := b\<rparr>)"
proof -
  have gc: "grown_capacity (maxsbuf s) (int (length ln) * k + ONELINE) = DELTA"
    if "0 \<le> k \<and> k < K" for k
  proof -
    from that small have "int (length ln) * k + ONELINE \<le> DELTA" by blast
    moreover from that have "0 \<le> int (length ln) * k" by simp
    then have "0 < int (length ln) * k + ONELINE" using ONELINE_DELTA by linarith
    ultimately show ?thesis using gc_step [of 0 "int (length ln) * k + ONELINE"] assms(1)
      by simp
  qed
  from K have "0 \<le> K - 1 \<and> K - 1 < K" by simp
  note cap = gc [OF this]
  have le: "DELTA \<le> MAXSMALLINT" by (simp add: DELTA_def MAXSMALLINT_def)
  have fit: "\<forall>k. 0 \<le> k \<and> k < K \<longrightarrow>
        int (length ln) * k + int (length ln) + 1
          \<le> grown_capacity (maxsbuf s) (int (length ln) * k + ONELINE)"
    using gc small by simp
  from convert_string_uniform [OF maxsbuf_ok_fresh [OF assms(1)] lines K cap le fit]
  show ?thesis .
qed

text \<open>Records of 8 bytes until the buffer has its largest size.\<close>

lemma example_big_prefix:
  "\<exists>b. convert_string int_platform 268304369 uniform_records example_dump
     = (Inr 2146434952, example_dump\<lparr>maxsbuf := 2146435072, sbuf := b\<rparr>)"
proof -
  let ?ln = "''1 0 0 0'' @ [newline]"
  have len: "int (length ?ln) = 8" by simp
  have ok: "maxsbuf_ok example_dump"
    by (rule maxsbuf_ok_fresh) (simp add: example_dump_fields)
  have lines: "\<forall>k. 0 \<le> k \<and> k < 268304369 \<longrightarrow>
      record_line int_platform example_dump uniform_records k = Some ?ln"
    by (simp add: uniform_line_example)
  have cap: "grown_capacity (maxsbuf example_dump) (int (length ?ln) * (268304369 - 1) + ONELINE)
      = 2146435072"
    unfolding len example_dump_fields
    using gc_unique [of 0 "8 * (268304369 - 1) + ONELINE" 2047]
    by (simp add: ONELINE_def DELTA_def)
  have le: "(2146435072::int) \<le> MAXSMALLINT" by (simp add: MAXSMALLINT_def)
  have fit: "\<forall>k. 0 \<le> k \<and> k < 268304369 \<longrightarrow>
        int (length ?ln) * k + int (length ?ln) + 1
          \<le> grown_capacity (maxsbuf example_dump) (int (length ?ln) * k + ONELINE)"
  proof (intro allI impI)
    fix k :: int
    from gc_ge(1) [of "int (length ?ln) * k + ONELINE" "maxsbuf example_dump"]
    show "int (length ?ln) * k + int (length ?ln) + 1
          \<le> grown_capacity (maxsbuf example_dump) (int (length ?ln) * k + ONELINE)"
      unfolding len by (simp add: ONELINE_def)
  qed
  have n: "(0::int) < 268304369" by simp
  from convert_string_uniform [OF ok lines n cap le fit] show ?thesis
    unfolding len by simp
qed

lemma example_big_text:
  assumes "0 \<le> n"
  shows "int (length (batch_text int_platform example_dump uniform_records n)) = 8 * n"
proof -
  have "\<forall>k. 0 \<le> k \<and> k < n \<longrightarrow>
      record_line int_platform example_dump uniform_records k = Some (''1 0 0 0'' @ [newline])"
    by (simp add: uniform_line_example)
  from span_text_uniform [OF this assms] show ?thesis by (simp add: batch_text_def)
qed

subsection \<open>Growth of the buffer\<close>

lemma lines_fit_iff:
  "lines_fit P s mybuf n = (\<forall>k. 0 \<le> k \<and> k < n \<longrightarrow> line_fits P s mybuf k)"
  by (auto simp: lines_fit_def list_all_iff)

lemma line_fits_line:
  assumes "line_fits P s mybuf k"
  obtains line where "record_line P s mybuf k = Some line" "int (length line) + 1 \<le> ONELINE"
  using assms by (auto simp: line_fits_def split: option.splits)

lemma required_room_span:
  "0 < n \<Longrightarrow> required_room P s mybuf n = 0 + int (length (span_text P s mybuf 0 (n - 1))) + ONELINE"
  by (simp add: required_room_def batch_text_def)

lemma convert_string_fits:
  assumes ok: "maxsbuf_ok s" and fits: "lines_fit P s mybuf n"
    and ceil: "grown_capacity (maxsbuf s) (required_room P s mybuf n) \<le> MAXSMALLINT"
  shows "\<exists>b. convert_string P n mybuf s
     = (Inr (int (length (batch_text P s mybuf n))),
        s\<lparr>maxsbuf := grown_capacity (maxsbuf s) (required_room P s mybuf n), sbuf := b\<rparr>)"
proof -
  have z: "(0::int) \<le> 0" "0 \<le> maxsbuf s" "(0::int) = 0 * size_one s"
    using ok by (simp_all add: maxsbuf_ok_def)
  have l: "\<forall>k. 0 \<le> k \<and> k < n \<longrightarrow>
           (\<exists>line. record_line P s mybuf k = Some line
              \<and> 0 + int (length (span_text P s mybuf 0 k)) + int (length line) + 1
                  \<le> grown_capacity (maxsbuf s)
                      (0 + int (length (span_text P s mybuf 0 k)) + ONELINE))"
  proof (intro allI impI)
    fix k assume "0 \<le> k \<and> k < n"
    with fits have "line_fits P s mybuf k" by (simp add: lines_fit_iff)
    then obtain line where line: "record_line P s mybuf k = Some line"
      "int (length line) + 1 \<le> ONELINE"
      by (rule line_fits_line)
    from gc_ge(1) [of "0 + int (length (span_text P s mybuf 0 k)) + ONELINE" "maxsbuf s"] line(2)
    have "0 + int (length (span_text P s mybuf 0 k)) + int (length line) + 1
        \<le> grown_capacity (maxsbuf s) (0 + int (length (span_text P s mybuf 0 k)) + ONELINE)"
      by linarith
    with line(1) show "\<exists>line. record_line P s mybuf k = Some line
              \<and> 0 + int (length (span_text P s mybuf 0 k)) + int (length line) + 1
                  \<le> grown_capacity (maxsbuf s)
                      (0 + int (length (span_text P s mybuf 0 k)) + ONELINE)"
      by blast
  qed
  have c: "0 < n \<longrightarrow> grown_capacity (maxsbuf s)
      (0 + int (length (span_text P s mybuf 0 (n - 1))) + ONELINE) \<le> MAXSMALLINT"
  proof
    assume "0 < n"
    from ceil [unfolded required_room_span [OF this]]
    show "grown_capacity (maxsbuf s)
      (0 + int (length (span_text P s mybuf 0 (n - 1))) + ONELINE) \<le> MAXSMALLINT" .
  qed
  have cap: "(if 0 < n then grown_capacity (maxsbuf s)
                 (0 + int (length (span_text P s mybuf 0 (n - 1))) + ONELINE)
             else maxsbuf s)
      = grown_capacity (maxsbuf s) (required_room P s mybuf n)"
  proof (cases "0 < n")
    case True
    then show ?thesis by (simp add: required_room_span)
  next
    case False
    then have "required_room P s mybuf n = 0" by (simp add: required_room_def)
    with False z(2) show ?thesis by (simp add: gc_le)
  qed
  from convert_loop_closed [OF ok z l c] show ?thesis
    unfolding cap convert_string_def batch_text_def by simp
qed

text \<open>
  Claim C3, with the bound on the lines that it leaves out. When the buffer is one
  of the sizes it can have, every line of the batch with its NUL takes at most
  \<open>ONELINE\<close> bytes, the text of the batch is longer than the buffer, and the size
  that the batch requires is not beyond \<open>MAXSMALLINT\<close>, then \<^verbatim>\<open>convert_string\<close>
  returns the length of the text of the whole batch, which the buffer then holds
  from its start; the buffer has become larger, by a multiple of \<open>DELTA\<close>, and has
  exactly the required size.
\<close>

theorem convert_string_grows:
  assumes "maxsbuf_ok s" "lines_fit P s mybuf n"
    "maxsbuf s < int (length (batch_text P s mybuf n))"
    "grown_capacity (maxsbuf s) (required_room P s mybuf n) \<le> MAXSMALLINT"
  shows "(\<exists>b. convert_string P n mybuf s
       = (Inr (int (length (batch_text P s mybuf n))),
          s\<lparr>maxsbuf := grown_capacity (maxsbuf s) (required_room P s mybuf n), sbuf := b\<rparr>)
       \<and> bytes_below b (int (length (batch_text P s mybuf n))) = batch_text P s mybuf n)
    \<and> maxsbuf s < grown_capacity (maxsbuf s) (required_room P s mybuf n)
    \<and> (grown_capacity (maxsbuf s) (required_room P s mybuf n) - maxsbuf s) mod DELTA = 0"
proof -
  let ?total = "int (length (batch_text P s mybuf n))"
  let ?cap = "grown_capacity (maxsbuf s) (required_room P s mybuf n)"
  from convert_string_fits [OF assms(1,2,4)] obtain b where
    r: "convert_string P n mybuf s = (Inr ?total, s\<lparr>maxsbuf := ?cap, sbuf := b\<rparr>)"
    by blast
  have "?total \<noteq> - 1" by simp
  from convert_string_success(2) [OF r this]
  have 1: "bytes_below b ?total = batch_text P s mybuf n" by simp
  from assms(1) have "0 \<le> maxsbuf s" by (simp add: maxsbuf_ok_def)
  with assms(3) have "0 < ?total" by linarith
  then have n: "0 < n" by (cases "0 < n") (simp_all add: batch_text_def span_text_empty)
  then have "0 \<le> n - 1 \<and> n - 1 < n" by simp
  with assms(2) have "line_fits P s mybuf (n - 1)" by (simp add: lines_fit_iff)
  then obtain line where line: "record_line P s mybuf (n - 1) = Some line"
    "int (length line) + 1 \<le> ONELINE"
    by (rule line_fits_line)
  from n have "batch_text P s mybuf n = batch_text P s mybuf (n - 1) @ line"
    using span_text_snoc [of 0 "n - 1" P s mybuf] line(1)
    by (simp add: batch_text_def record_text_def)
  with line(2) have "?total < required_room P s mybuf n"
    using n by (simp add: required_room_def)
  with assms(3) gc_ge(1) [of "required_room P s mybuf n" "maxsbuf s"]
  have 2: "maxsbuf s < ?cap" by linarith
  obtain j where "?cap = maxsbuf s + DELTA * j" using gc_multiple by blast
  then have 3: "(?cap - maxsbuf s) mod DELTA = 0" by simp
  from r 1 2 3 show ?thesis by blast
qed

lemma dec_int_digits: "dec_int 2 = ''2''" "dec_int 3 = ''3''" "dec_int 4 = ''4''"
  "dec_int 5 = ''5''" "dec_int 6 = ''6''"
  by (simp_all add: dec_int_def dec_nat.simps digit_char_def)

lemma two_records_lines:
  "record_line int_platform example_dump two_records 0 = Some (''1 3 3 3'' @ [newline])"
  "record_line int_platform example_dump two_records 1 = Some (''2 4 5 6'' @ [newline])"
  by (simp_all add: record_line_def slot_line_def example_dump_fields two_records_def
      int_platform_def default_typenames_at dec_int_0_1 dec_int_digits eval_nat_numeral)

lemma two_records_text:
  "batch_text int_platform example_dump two_records 1 = ''1 3 3 3'' @ [newline]"
  "batch_text int_platform example_dump two_records 2
     = ''1 3 3 3'' @ [newline] @ ''2 4 5 6'' @ [newline]"
  by (simp_all add: batch_text_def span_text_def record_text_def two_records_lines upto.simps)

lemma two_records_fit: "lines_fit int_platform example_dump two_records 2"
  by (simp add: lines_fit_def line_fits_def two_records_lines upto.simps ONELINE_def)

lemma two_records_room:
  "grown_capacity (maxsbuf example_dump) (required_room int_platform example_dump two_records 2)
     = 1048576"
  by (simp add: required_room_def two_records_text example_dump_fields grown_capacity_def
      ONELINE_def DELTA_def)

lemma example_dump_ok: "maxsbuf_ok example_dump"
  by (rule maxsbuf_ok_fresh) (simp add: example_dump_fields)

text \<open>Two records of eight bytes in a buffer that has not been allocated yet.\<close>

theorem convert_string_grows_witness:
  "maxsbuf_ok example_dump \<and> lines_fit int_platform example_dump two_records 2
   \<and> maxsbuf example_dump < int (length (batch_text int_platform example_dump two_records 2))
   \<and> grown_capacity (maxsbuf example_dump)
        (required_room int_platform example_dump two_records 2) \<le> MAXSMALLINT
   \<and> fst (convert_string int_platform 2 two_records example_dump) = Inr 16
   \<and> maxsbuf (snd (convert_string int_platform 2 two_records example_dump)) = 1048576
   \<and> bytes_below (sbuf (snd (convert_string int_platform 2 two_records example_dump))) 16
       = ''1 3 3 3'' @ [newline] @ ''2 4 5 6'' @ [newline]"
proof -
  have a: "maxsbuf example_dump < int (length (batch_text int_platform example_dump two_records 2))"
    by (simp add: two_records_text example_dump_fields)
  have b: "grown_capacity (maxsbuf example_dump)
        (required_room int_platform example_dump two_records 2) \<le> MAXSMALLINT"
    by (simp add: two_records_room MAXSMALLINT_def)
  from convert_string_grows [OF example_dump_ok two_records_fit a b]
  obtain c where c: "convert_string int_platform 2 two_records example_dump
       = (Inr (int (length (batch_text int_platform example_dump two_records 2))),
          example_dump\<lparr>maxsbuf := grown_capacity (maxsbuf example_dump)
             (required_room int_platform example_dump two_records 2), sbuf := c\<rparr>)"
     "bytes_below c (int (length (batch_text int_platform example_dump two_records 2)))
        = batch_text int_platform example_dump two_records 2"
    by blast
  from c have "fst (convert_string int_platform 2 two_records example_dump) = Inr 16"
    "maxsbuf (snd (convert_string int_platform 2 two_records example_dump)) = 1048576"
    "bytes_below (sbuf (snd (convert_string int_platform 2 two_records example_dump))) 16
       = ''1 3 3 3'' @ [newline] @ ''2 4 5 6'' @ [newline]"
    by (simp_all add: two_records_room two_records_text)
  with example_dump_ok two_records_fit a b show ?thesis by blast
qed

lemma labelled_dump_ok: "maxsbuf_ok (labelled_dump w)"
  by (rule maxsbuf_ok_fresh) (simp add: labelled_dump_fields)

lemma labelled_text:
  assumes "0 \<le> n"
  shows "int (length (batch_text int_platform (labelled_dump w) uniform_records n))
     = (int w + 7) * n"
proof -
  have "\<forall>k. 0 \<le> k \<and> k < n \<longrightarrow>
      record_line int_platform (labelled_dump w) uniform_records k
        = Some (replicate w (CHR ''X'') @ '' 0 0 0'' @ [newline])"
    by (simp add: uniform_line_labelled)
  from span_text_uniform [OF this assms] show ?thesis by (simp add: batch_text_def)
qed

text \<open>
  Equal lines of \<open>w + 7\<close> bytes in a fresh buffer: \<open>K\<close> of them end, with their
  NUL, within the first \<open>DELTA\<close> bytes; the buffer does not grow for the next one,
  which does not end within it.
\<close>

lemma labelled_overrun:
  assumes K: "0 < K"
    and small: "\<forall>k. 0 \<le> k \<and> k < K \<longrightarrow>
        (int w + 7) * k + ONELINE \<le> DELTA \<and> (int w + 7) * k + (int w + 7) + 1 \<le> DELTA"
    and room: "(int w + 7) * K + ONELINE \<le> DELTA"
    and over: "(int w + 7) * K + (int w + 7) + 1 > DELTA"
  shows "fst (convert_string int_platform K uniform_records (labelled_dump w))
           = Inr ((int w + 7) * K)"
    and "maxsbuf (snd (convert_string int_platform K uniform_records (labelled_dump w))) = DELTA"
    and "fst (convert_string int_platform (K + 1) uniform_records (labelled_dump w))
           = Inl BufferOverrun"
proof -
  let ?ln = "replicate w (CHR ''X'') @ '' 0 0 0'' @ [newline]"
  let ?s = "labelled_dump w"
  have len: "int (length ?ln) = int w + 7" by simp
  have lines: "\<forall>k. 0 \<le> k \<and> k < K \<longrightarrow> record_line int_platform ?s uniform_records k = Some ?ln"
    by (simp add: uniform_line_labelled)
  have m0: "maxsbuf ?s = 0" by (simp add: labelled_dump_fields)
  from first_block [OF m0 lines K small [folded len]] obtain b where
    r: "convert_string int_platform K uniform_records ?s
      = (Inr ((int w + 7) * K), ?s\<lparr>maxsbuf := DELTA, sbuf := b\<rparr>)"
    unfolding len by blast
  then show "fst (convert_string int_platform K uniform_records ?s) = Inr ((int w + 7) * K)"
    and "maxsbuf (snd (convert_string int_platform K uniform_records ?s)) = DELTA"
    by simp_all
  have "0 \<le> (int w + 7) * K" using K by (intro mult_nonneg_nonneg) simp_all
  then have ne: "(int w + 7) * K \<noteq> - 1" by linarith
  have k: "0 \<le> K" "K < K + 1" using K by simp_all
  have rl: "record_line int_platform ?s uniform_records K = Some ?ln"
    using k(1) by (rule uniform_line_labelled)
  have a: "(int w + 7) * K + ONELINE \<le> maxsbuf (?s\<lparr>maxsbuf := DELTA, sbuf := b\<rparr>)"
    using room by simp
  have o: "(int w + 7) * K + int (length ?ln) + 1 > maxsbuf (?s\<lparr>maxsbuf := DELTA, sbuf := b\<rparr>)"
    unfolding len using over by simp
  from convert_string_overrun [OF labelled_dump_ok r ne k rl a o]
  show "fst (convert_string int_platform (K + 1) uniform_records ?s) = Inl BufferOverrun"
    by simp
qed

text \<open>
  Claim C3 as it is stated does not hold: 5243 records whose lines have 200 bytes,
  in a buffer that has not been allocated yet. The text has 1048600 bytes, the size
  the batch requires is far below \<open>MAXSMALLINT\<close>, and the call ends in a write past
  the end of the buffer, at the record that starts at offset 1048400: the size
  check finds \<open>ONELINE\<close> bytes left and does not grow the buffer.
\<close>

theorem convert_string_grows_counterexample:
  "maxsbuf_ok (labelled_dump 193)
   \<and> maxsbuf (labelled_dump 193) = 0
   \<and> int (length (batch_text int_platform (labelled_dump 193) uniform_records 5243)) = 1048600
   \<and> grown_capacity (maxsbuf (labelled_dump 193))
        (required_room int_platform (labelled_dump 193) uniform_records 5243) = 1048576
   \<and> fst (convert_string int_platform 5242 uniform_records (labelled_dump 193)) = Inr 1048400
   \<and> fst (convert_string int_platform 5243 uniform_records (labelled_dump 193))
        = Inl BufferOverrun"
proof -
  have K: "(0::int) < 5242" by simp
  have small: "\<forall>k. 0 \<le> k \<and> k < 5242 \<longrightarrow>
        (int 193 + 7) * k + ONELINE \<le> DELTA \<and> (int 193 + 7) * k + (int 193 + 7) + 1 \<le> DELTA"
    by (simp add: ONELINE_def DELTA_def)
  have room: "(int 193 + 7) * 5242 + ONELINE \<le> DELTA"
    by (simp add: ONELINE_def DELTA_def)
  have over: "(int 193 + 7) * 5242 + (int 193 + 7) + 1 > DELTA"
    by (simp add: DELTA_def)
  note o = labelled_overrun [OF K small room over]
  have t: "int (length (batch_text int_platform (labelled_dump 193) uniform_records 5243)) = 1048600"
    "int (length (batch_text int_platform (labelled_dump 193) uniform_records 5242)) = 1048400"
    by (simp_all add: labelled_text)
  have g: "grown_capacity (maxsbuf (labelled_dump 193))
        (required_room int_platform (labelled_dump 193) uniform_records 5243) = 1048576"
    by (simp add: required_room_def t labelled_dump_fields grown_capacity_def ONELINE_def DELTA_def)
  from o(1) have 1: "fst (convert_string int_platform 5242 uniform_records (labelled_dump 193))
      = Inr 1048400"
    by simp
  from o(3) have 2: "fst (convert_string int_platform 5243 uniform_records (labelled_dump 193))
      = Inl BufferOverrun"
    by simp
  from labelled_dump_ok [of 193] labelled_dump_fields(1) [of 193] t(1) g 1 2 show ?thesis
    by blast
qed

subsection \<open>Writes stay in the buffer\<close>

lemma lines_fit_prefix: "lines_fit P s mybuf n \<Longrightarrow> k \<le> n \<Longrightarrow> lines_fit P s mybuf k"
  by (simp add: lines_fit_iff)

lemma convert_string_fits_result:
  assumes "maxsbuf_ok s" "lines_fit P s mybuf n"
  shows "\<exists>off s'. convert_string P n mybuf s = (Inr off, s')
     \<and> (off = - 1 \<or> (0 \<le> off \<and> off \<le> maxsbuf s'))"
proof -
  have z: "(0::int) \<le> 0" "0 \<le> maxsbuf s" "(0::int) = 0 * size_one s"
    using assms(1) by (simp_all add: maxsbuf_ok_def)
  from assms(2) have "\<forall>k. 0 \<le> k \<and> k < n \<longrightarrow> line_fits P s mybuf k"
    by (simp add: lines_fit_iff)
  from convert_loop_fits [OF assms(1) z this] show ?thesis
    by (simp add: convert_string_def)
qed

text \<open>
  Claim C10, with the bound read for the line together with the NUL that
  \<^verbatim>\<open>sprintf\<close> stores behind it. When the buffer is one of the sizes it can have and
  every line of the batch with its NUL takes at most \<open>ONELINE\<close> bytes, then
  \<^verbatim>\<open>convert_string\<close> returns, without a write past the end of the buffer, either
  the sentinel or an offset that is at most the size of the buffer. Moreover the
  call reaches each record \<open>k\<close>, unless it has returned the sentinel before, with
  the offset and the object that the call on the first \<open>k\<close> records returns; there
  it returns the sentinel, or else after the size check \<open>offset + ONELINE\<close> is at
  most the size of the buffer and the line with its NUL ends within the buffer.
\<close>

theorem convert_string_in_bounds:
  assumes "maxsbuf_ok s" "lines_fit P s mybuf n"
  shows "(\<exists>off s'. convert_string P n mybuf s = (Inr off, s')
            \<and> (off = - 1 \<or> (0 \<le> off \<and> off \<le> maxsbuf s')))
    \<and> (\<forall>k. 0 \<le> k \<and> k < n \<longrightarrow>
         (\<exists>off sk. convert_string P k mybuf s = (Inr off, sk)
            \<and> (off = - 1
               \<or> (0 \<le> off
                  \<and> convert_string P n mybuf s = convert_loop P n mybuf k (k * size_one s) off sk
                  \<and> ((off + ONELINE > maxsbuf sk \<and> maxsbuf sk + DELTA > MAXSMALLINT)
                     \<or> (off + ONELINE \<le> maxsbuf (make_room off sk)
                        \<and> (\<exists>line. record_line P s mybuf k = Some line
                             \<and> off + int (length line) + 1 \<le> maxsbuf (make_room off sk))))))))"
proof (intro conjI allI impI)
  show "\<exists>off s'. convert_string P n mybuf s = (Inr off, s')
            \<and> (off = - 1 \<or> (0 \<le> off \<and> off \<le> maxsbuf s'))"
    by (rule convert_string_fits_result [OF assms])
next
  fix k assume k: "0 \<le> k \<and> k < n"
  then have kn: "k \<le> n" by simp
  from convert_string_fits_result [OF assms(1) lines_fit_prefix [OF assms(2) kn]]
  obtain off sk where r: "convert_string P k mybuf s = (Inr off, sk)"
    and b: "off = - 1 \<or> (0 \<le> off \<and> off \<le> maxsbuf sk)"
    by blast
  have "off = - 1
      \<or> (0 \<le> off
         \<and> convert_string P n mybuf s = convert_loop P n mybuf k (k * size_one s) off sk
         \<and> ((off + ONELINE > maxsbuf sk \<and> maxsbuf sk + DELTA > MAXSMALLINT)
            \<or> (off + ONELINE \<le> maxsbuf (make_room off sk)
               \<and> (\<exists>line. record_line P s mybuf k = Some line
                    \<and> off + int (length line) + 1 \<le> maxsbuf (make_room off sk)))))"
  proof (cases "off = - 1")
    case True
    then show ?thesis by simp
  next
    case False
    with b have o: "0 \<le> off" "off \<le> maxsbuf sk" by simp_all
    from k have k0: "0 \<le> k" by simp
    note at = convert_string_at [OF r False k0 kn]
    note room = room_made [OF o(2)]
    from k assms(2) have "line_fits P s mybuf k" by (simp add: lines_fit_iff)
    then obtain line where line: "record_line P s mybuf k = Some line"
      "int (length line) + 1 \<le> ONELINE"
      by (rule line_fits_line)
    from room line(2) have "off + int (length line) + 1 \<le> maxsbuf (make_room off sk)"
      by linarith
    with o(1) at room line(1) show ?thesis by blast
  qed
  with r show "\<exists>off sk. convert_string P k mybuf s = (Inr off, sk)
            \<and> (off = - 1
               \<or> (0 \<le> off
                  \<and> convert_string P n mybuf s = convert_loop P n mybuf k (k * size_one s) off sk
                  \<and> ((off + ONELINE > maxsbuf sk \<and> maxsbuf sk + DELTA > MAXSMALLINT)
                     \<or> (off + ONELINE \<le> maxsbuf (make_room off sk)
                        \<and> (\<exists>line. record_line P s mybuf k = Some line
                             \<and> off + int (length line) + 1 \<le> maxsbuf (make_room off sk))))))"
    by blast
qed

text \<open>Two records of eight bytes.\<close>

theorem convert_string_in_bounds_witness:
  "maxsbuf_ok example_dump \<and> lines_fit int_platform example_dump two_records 2
   \<and> (\<exists>off s'. convert_string int_platform 2 two_records example_dump = (Inr off, s')
         \<and> off = 16 \<and> off \<le> maxsbuf s')
   \<and> (\<exists>off sk. convert_string int_platform 1 two_records example_dump = (Inr off, sk)
         \<and> off = 8 \<and> off + ONELINE \<le> maxsbuf (make_room off sk))"
proof -
  note t = convert_string_in_bounds [OF example_dump_ok two_records_fit]
  have g: "grown_capacity (maxsbuf example_dump)
        (required_room int_platform example_dump two_records 2) \<le> MAXSMALLINT"
    by (simp add: two_records_room MAXSMALLINT_def)
  from convert_string_fits [OF example_dump_ok two_records_fit g]
  have f2: "fst (convert_string int_platform 2 two_records example_dump) = Inr 16"
    by (auto simp: two_records_text)
  from t obtain off s' where a: "convert_string int_platform 2 two_records example_dump = (Inr off, s')"
    "off = - 1 \<or> (0 \<le> off \<and> off \<le> maxsbuf s')"
    by blast
  with f2 have "off = 16" by simp
  with a have 1: "\<exists>off s'. convert_string int_platform 2 two_records example_dump = (Inr off, s')
         \<and> off = 16 \<and> off \<le> maxsbuf s'"
    by auto
  have f1: "lines_fit int_platform example_dump two_records 1"
    by (rule lines_fit_prefix [OF two_records_fit]) simp
  have g1: "grown_capacity (maxsbuf example_dump)
        (required_room int_platform example_dump two_records 1) \<le> MAXSMALLINT"
    by (simp add: required_room_def batch_text_def example_dump_fields grown_capacity_def
        ONELINE_def DELTA_def MAXSMALLINT_def)
  from convert_string_fits [OF example_dump_ok f1 g1]
  have f1': "fst (convert_string int_platform 1 two_records example_dump) = Inr 8"
    by (auto simp: two_records_text)
  have "(0::int) \<le> 1 \<and> (1::int) < 2" by simp
  with t obtain off1 sk where b: "convert_string int_platform 1 two_records example_dump = (Inr off1, sk)"
    "off1 = - 1
       \<or> (0 \<le> off1
          \<and> convert_string int_platform 2 two_records example_dump
              = convert_loop int_platform 2 two_records 1 (1 * size_one example_dump) off1 sk
          \<and> ((off1 + ONELINE > maxsbuf sk \<and> maxsbuf sk + DELTA > MAXSMALLINT)
             \<or> (off1 + ONELINE \<le> maxsbuf (make_room off1 sk)
                \<and> (\<exists>line. record_line int_platform example_dump two_records 1 = Some line
                     \<and> off1 + int (length line) + 1 \<le> maxsbuf (make_room off1 sk)))))"
    by blast
  from b(1) f1' have o1: "off1 = 8" by simp
  note suc = convert_string_success [OF b(1)]
  from o1 suc(6) [OF _ example_dump_ok] have "maxsbuf_ok sk" by simp
  then have "maxsbuf sk + DELTA \<le> MAXSMALLINT + 1" 
    using ok_bound [of "maxsbuf sk"] by (simp add: maxsbuf_ok_def)
  moreover from o1 suc(5) have "8 \<le> maxsbuf sk" by (simp add: example_dump_fields)
  moreover from o1 suc(4) convert_string_fits [OF example_dump_ok f1 g1] b(1)
  have "maxsbuf sk = 1048576"
    by (auto simp: required_room_def batch_text_def example_dump_fields grown_capacity_def
        ONELINE_def DELTA_def)
  ultimately have "\<not> (off1 + ONELINE > maxsbuf sk \<and> maxsbuf sk + DELTA > MAXSMALLINT)"
    using o1 by (simp add: ONELINE_def)
  with b(2) o1 have "off1 + ONELINE \<le> maxsbuf (make_room off1 sk)" by auto
  with b(1) o1 have 2: "\<exists>off sk. convert_string int_platform 1 two_records example_dump = (Inr off, sk)
         \<and> off = 8 \<and> off + ONELINE \<le> maxsbuf (make_room off sk)"
    by blast
  from example_dump_ok two_records_fit 1 2 show ?thesis by blast
qed

text \<open>
  Claim C10 as it is stated does not hold when the bound is read for the characters
  of the line alone: 8192 records whose lines have 128 characters each, in a buffer
  that has not been allocated yet. After 8191 records the offset is 1048448 and the
  buffer has 1048576 bytes, so that \<open>offset + ONELINE\<close> equals its size and the size
  check does not grow it; the 128 characters of the next line fill the buffer to
  its end and the NUL behind them is written past the end.
\<close>

theorem convert_string_in_bounds_counterexample:
  "list_all (\<lambda>k. int (length (record_text int_platform (labelled_dump 121) uniform_records k))
               \<le> ONELINE) [0..8191]
   \<and> maxsbuf_ok (labelled_dump 121)
   \<and> fst (convert_string int_platform 8191 uniform_records (labelled_dump 121)) = Inr 1048448
   \<and> maxsbuf (snd (convert_string int_platform 8191 uniform_records (labelled_dump 121)))
        = 1048576
   \<and> fst (convert_string int_platform 8192 uniform_records (labelled_dump 121))
        = Inl BufferOverrun"
proof -
  have K: "(0::int) < 8191" by simp
  have small: "\<forall>k. 0 \<le> k \<and> k < 8191 \<longrightarrow>
        (int 121 + 7) * k + ONELINE \<le> DELTA \<and> (int 121 + 7) * k + (int 121 + 7) + 1 \<le> DELTA"
    by (simp add: ONELINE_def DELTA_def)
  have room: "(int 121 + 7) * 8191 + ONELINE \<le> DELTA"
    by (simp add: ONELINE_def DELTA_def)
  have over: "(int 121 + 7) * 8191 + (int 121 + 7) + 1 > DELTA"
    by (simp add: DELTA_def)
  note o = labelled_overrun [OF K small room over]
  have "int (length (record_text int_platform (labelled_dump 121) uniform_records k)) \<le> ONELINE"
    if "k \<in> set [0..8191]" for k
  proof -
    from that have "0 \<le> k" by simp
    from uniform_line_labelled [OF this, of 121] show ?thesis
      by (simp add: record_text_def ONELINE_def)
  qed
  then have 1: "list_all (\<lambda>k. int (length (record_text int_platform (labelled_dump 121)
      uniform_records k)) \<le> ONELINE) [0..8191]"
    unfolding list_all_iff by blast
  from o(1) have 2: "fst (convert_string int_platform 8191 uniform_records (labelled_dump 121))
      = Inr 1048448"
    by simp
  from o(2) have 3: "maxsbuf (snd (convert_string int_platform 8191 uniform_records
      (labelled_dump 121))) = 1048576"
    by (simp add: DELTA_def)
  from o(3) have 4: "fst (convert_string int_platform 8192 uniform_records (labelled_dump 121))
      = Inl BufferOverrun"
    by simp
  from 1 labelled_dump_ok [of 121] 2 3 4 show ?thesis by blast
qed

subsection \<open>The buffered path and the line-by-line path\<close>

text \<open>
  Claim C1, for the calls in which \<^verbatim>\<open>convert_string\<close> returns an offset. The bytes
  of the buffer below the returned offset are the text of the batch, line after
  line; \<^verbatim>\<open>write_lines\<close> on the same batch succeeds and appends exactly these bytes
  to the stream, and so does \<^verbatim>\<open>write_string\<close> when it is given the buffer and the
  offset. This holds for every count \<open>n\<close>, every template and every label table.
\<close>

theorem convert_string_write_lines:
  assumes "convert_string P n mybuf s = (Inr off, s')" "off \<noteq> - 1"
  shows "write_lines P n mybuf s = (Inr (), s\<lparr>fp := fp s @ bytes_below (sbuf s') off\<rparr>)
    \<and> write_string off (Some (sbuf s')) s' = (Inr (), s'\<lparr>fp := fp s @ bytes_below (sbuf s') off\<rparr>)
    \<and> bytes_below (sbuf s') off = batch_text P s mybuf n
    \<and> off = int (length (batch_text P s mybuf n))"
proof -
  note suc = convert_string_success [OF assms]
  have 1: "write_lines P n mybuf s = (Inr (), s\<lparr>fp := fp s @ bytes_below (sbuf s') off\<rparr>)"
    unfolding suc(2) by (rule write_lines_text [OF suc(3)])
  have "fp s' = fp s" by (subst suc(4)) simp
  moreover have "0 \<le> off" using suc(1) by simp
  ultimately have 2: "write_string off (Some (sbuf s')) s'
      = (Inr (), s'\<lparr>fp := fp s @ bytes_below (sbuf s') off\<rparr>)"
    by (simp add: write_string_def bytes_below_def)
  from 1 2 suc(1,2) show ?thesis by blast
qed

text \<open>Two records, and the empty batch.\<close>

theorem convert_string_write_lines_witness:
  "convert_string int_platform 2 two_records example_dump
     = (Inr 16, snd (convert_string int_platform 2 two_records example_dump))
   \<and> (16::int) \<noteq> - 1
   \<and> write_lines int_platform 2 two_records example_dump
       = (Inr (), example_dump\<lparr>fp := ''1 3 3 3'' @ [newline] @ ''2 4 5 6'' @ [newline]\<rparr>)
   \<and> bytes_below (sbuf (snd (convert_string int_platform 2 two_records example_dump))) 16
       = ''1 3 3 3'' @ [newline] @ ''2 4 5 6'' @ [newline]
   \<and> convert_string int_platform 0 two_records example_dump = (Inr 0, example_dump)
   \<and> write_lines int_platform 0 two_records example_dump = (Inr (), example_dump)"
proof -
  let ?s' = "snd (convert_string int_platform 2 two_records example_dump)"
  have g: "grown_capacity (maxsbuf example_dump)
        (required_room int_platform example_dump two_records 2) \<le> MAXSMALLINT"
    by (simp add: two_records_room MAXSMALLINT_def)
  from convert_string_fits [OF example_dump_ok two_records_fit g]
  have a: "convert_string int_platform 2 two_records example_dump = (Inr 16, ?s')"
    by (auto simp: two_records_text)
  have b: "(16::int) \<noteq> - 1" by simp
  note t = convert_string_write_lines [OF a b]
  from t have bytes: "bytes_below (sbuf ?s') 16 = ''1 3 3 3'' @ [newline] @ ''2 4 5 6'' @ [newline]"
    by (simp add: two_records_text)
  from t have "write_lines int_platform 2 two_records example_dump
      = (Inr (), example_dump\<lparr>fp := fp example_dump @ bytes_below (sbuf ?s') 16\<rparr>)"
    by blast
  then have w: "write_lines int_platform 2 two_records example_dump
       = (Inr (), example_dump\<lparr>fp := ''1 3 3 3'' @ [newline] @ ''2 4 5 6'' @ [newline]\<rparr>)"
    unfolding bytes by (simp add: example_dump_fields)
  have c: "convert_string int_platform 0 two_records example_dump = (Inr 0, example_dump)"
    by (simp add: convert_string_def convert_loop_stop)
  have "(0::int) \<noteq> - 1" by simp
  from convert_string_write_lines [OF c this]
  have "write_lines int_platform 0 two_records example_dump
      = (Inr (), example_dump\<lparr>fp := fp example_dump @ bytes_below (sbuf example_dump) 0\<rparr>)"
    by blast
  then have e: "write_lines int_platform 0 two_records example_dump = (Inr (), example_dump)"
    by (simp add: bytes_below_def)
  from a b w bytes c e show ?thesis by blast
qed

text \<open>
  Claim C1 as it is stated, for every batch, does not hold: 268304370 records of
  8 bytes each, in a buffer that has not been allocated yet. The buffer grows to
  2146435072 bytes while the first 268304369 records are formatted; the next growth
  would pass \<open>MAXSMALLINT\<close>, and \<^verbatim>\<open>convert_string\<close> returns the sentinel and no
  offset. \<^verbatim>\<open>write_lines\<close> sends all 2146434960 bytes of the batch to the stream.
\<close>

theorem convert_string_write_lines_counterexample:
  "fst (convert_string int_platform 268304370 uniform_records example_dump) = Inr (- 1)
   \<and> fst (write_lines int_platform 268304370 uniform_records example_dump) = Inr ()
   \<and> int (length (fp (snd (write_lines int_platform 268304370 uniform_records example_dump))))
        = 2146434960"
proof -
  from example_big_prefix obtain b where
    r: "convert_string int_platform 268304369 uniform_records example_dump
     = (Inr 2146434952, example_dump\<lparr>maxsbuf := 2146435072, sbuf := b\<rparr>)"
    by blast
  have ne: "(2146434952::int) \<noteq> - 1" by simp
  have k: "(0::int) \<le> 268304369" "(268304369::int) < 268304370" by simp_all
  have a: "2146434952 + ONELINE > maxsbuf (example_dump\<lparr>maxsbuf := 2146435072, sbuf := b\<rparr>)"
    by (simp add: ONELINE_def)
  have c: "maxsbuf (example_dump\<lparr>maxsbuf := 2146435072, sbuf := b\<rparr>) + DELTA > MAXSMALLINT"
    by (simp add: DELTA_def MAXSMALLINT_def)
  from convert_string_sentinel [OF example_dump_ok r ne k a c]
  have 1: "fst (convert_string int_platform 268304370 uniform_records example_dump) = Inr (- 1)"
    by simp
  have "\<forall>k. 0 \<le> k \<and> k < 268304370 \<longrightarrow>
      record_line int_platform example_dump uniform_records k \<noteq> None"
    by (simp add: uniform_line_example)
  from write_lines_text [OF this]
  have w: "write_lines int_platform 268304370 uniform_records example_dump
      = (Inr (), example_dump\<lparr>fp := fp example_dump
           @ batch_text int_platform example_dump uniform_records 268304370\<rparr>)" .
  then have 2: "fst (write_lines int_platform 268304370 uniform_records example_dump) = Inr ()"
    by simp
  have "int (length (batch_text int_platform example_dump uniform_records 268304370))
      = 8 * 268304370"
    by (rule example_big_text) simp
  with w have 3: "int (length (fp (snd (write_lines int_platform 268304370 uniform_records
      example_dump)))) = 2146434960"
    by (simp add: example_dump_fields)
  from 1 2 3 show ?thesis by blast
qed

subsection \<open>The size ceiling\<close>

text \<open>
  Claim C2. Let the buffer be one of the sizes it can have, and let the first \<open>k\<close>
  records of the batch format without failure, to the offset \<open>off\<close> and the object
  \<open>s1\<close>. If record \<open>k\<close> needs the buffer to grow and the growth by \<open>DELTA\<close> would
  pass \<open>MAXSMALLINT\<close>, then the call on the whole batch returns -1 and leaves the
  object \<open>s1\<close>: the buffer holds, below \<open>off\<close>, the text of the first \<open>k\<close> records.
\<close>

theorem convert_string_ceiling:
  assumes "maxsbuf_ok s" "convert_string P k mybuf s = (Inr off, s1)" "off \<noteq> - 1"
    "0 \<le> k" "k < n" "off + ONELINE > maxsbuf s1" "maxsbuf s1 + DELTA > MAXSMALLINT"
  shows "convert_string P n mybuf s = (Inr (- 1), s1)
    \<and> bytes_below (sbuf s1) off = batch_text P s mybuf k
    \<and> off = int (length (batch_text P s mybuf k))"
  using convert_string_sentinel [OF assms] convert_string_success(1,2) [OF assms(2,3)]
  by blast

text \<open>
  Records of 8 bytes: 268304369 of them fill the buffer of the largest size up to
  less than \<open>ONELINE\<close> bytes before its end, and a batch of 268304374 fails there.
\<close>

theorem convert_string_ceiling_witness:
  "maxsbuf_ok example_dump
   \<and> convert_string int_platform 268304369 uniform_records example_dump
       = (Inr 2146434952, snd (convert_string int_platform 268304369 uniform_records example_dump))
   \<and> (2146434952::int) \<noteq> - 1 \<and> (0::int) \<le> 268304369 \<and> (268304369::int) < 268304374
   \<and> 2146434952 + ONELINE
       > maxsbuf (snd (convert_string int_platform 268304369 uniform_records example_dump))
   \<and> maxsbuf (snd (convert_string int_platform 268304369 uniform_records example_dump)) + DELTA
       > MAXSMALLINT
   \<and> convert_string int_platform 268304374 uniform_records example_dump
       = (Inr (- 1), snd (convert_string int_platform 268304369 uniform_records example_dump))
   \<and> int (length (bytes_below
         (sbuf (snd (convert_string int_platform 268304369 uniform_records example_dump)))
         2146434952)) = 2146434952"
proof -
  let ?s1 = "snd (convert_string int_platform 268304369 uniform_records example_dump)"
  from example_big_prefix obtain b where
    p: "convert_string int_platform 268304369 uniform_records example_dump
     = (Inr 2146434952, example_dump\<lparr>maxsbuf := 2146435072, sbuf := b\<rparr>)"
    by blast
  then have r: "convert_string int_platform 268304369 uniform_records example_dump
      = (Inr 2146434952, ?s1)"
    and m: "maxsbuf ?s1 = 2146435072"
    by simp_all
  have ne: "(2146434952::int) \<noteq> - 1" by simp
  have k: "(0::int) \<le> 268304369" "(268304369::int) < 268304374" by simp_all
  have a: "2146434952 + ONELINE > maxsbuf ?s1"
    unfolding m by (simp add: ONELINE_def)
  have c: "maxsbuf ?s1 + DELTA > MAXSMALLINT"
    unfolding m by (simp add: DELTA_def MAXSMALLINT_def)
  note t = convert_string_ceiling [OF example_dump_ok r ne k a c]
  from t have 1: "convert_string int_platform 268304374 uniform_records example_dump
      = (Inr (- 1), ?s1)"
    by blast
  from t have "bytes_below (sbuf ?s1) 2146434952
      = batch_text int_platform example_dump uniform_records 268304369"
    by blast
  then have 2: "int (length (bytes_below (sbuf ?s1) 2146434952)) = 2146434952"
    by (simp add: example_big_text)
  from example_dump_ok r ne k a c 1 2 show ?thesis by blast
qed

end
